theory Spec2Isabelle
  imports Main
begin

section \<open>The Go primitives used by package ratelimit\<close>

text \<open>
  The package is built from three primitives of Go: a buffered channel
  (\<^verbatim>\<open>chan interface{}\<close>), a mutex (\<^verbatim>\<open>sync.Mutex\<close>) and the clock of package
  \<^verbatim>\<open>time\<close>. Each is modelled by what the language specification and the package
  documentation promise:
  \<^item> a send on a closed channel panics, a send on a full open channel blocks, a send
    on an open channel with room appends to the buffer;
  \<^item> a receive takes the oldest buffered value; on an empty channel it yields
    \<^verbatim>\<open>(nil, false)\<close> when the channel is closed and blocks otherwise;
  \<^item> closing a closed channel panics;
  \<^item> on a channel of capacity zero a send completes only together with a receive
    that is ready (a rendezvous);
  \<^item> \<^verbatim>\<open>make(chan T, n)\<close> with a negative \<^verbatim>\<open>n\<close> panics;
  \<^item> \<^verbatim>\<open>time.Now()\<close> reads a clock that never runs backwards, and
    \<^verbatim>\<open>time.Sleep(x)\<close> returns at once when \<^verbatim>\<open>x\<close> is zero or negative and
    otherwise not before \<^verbatim>\<open>x\<close> has passed.
  Instants and durations are integers (nanoseconds); a duration may be negative, as
  \<^verbatim>\<open>time.Duration\<close> is a signed integer.
\<close>

type_synonym Time = int
type_synonym Duration = int

text \<open>A value of type \<^verbatim>\<open>interface{}\<close>: \<^verbatim>\<open>nil\<close> or a boxed value.\<close>

datatype 'a iface = nil | Val 'a

text \<open>What an operation does when a goroutine tries it: it cannot proceed now, it panics, or it is done.\<close>

datatype 'r outcome = Blocks | Panics | Done 'r

record 'a chan =
  buf :: "'a iface list"
  cap :: nat
  closed :: bool

definition make_chan :: "int \<Rightarrow> 'a chan outcome" where
  "make_chan n =
     (if n < 0 then Panics
      else Done \<lparr>buf = [], cap = nat n, closed = False\<rparr>)"

definition chansend :: "'a chan \<Rightarrow> 'a iface \<Rightarrow> 'a chan outcome" where
  "chansend c v =
     (if closed c then Panics
      else if length (buf c) < cap c then Done (c\<lparr>buf := buf c @ [v]\<rparr>)
      else Blocks)"

definition chanrecv :: "'a chan \<Rightarrow> (('a iface \<times> bool) \<times> 'a chan) outcome" where
  "chanrecv c =
     (case buf c of
        v # vs \<Rightarrow> Done ((v, True), c\<lparr>buf := vs\<rparr>)
      | [] \<Rightarrow> if closed c then Done ((nil, False), c) else Blocks)"

definition closechan :: "'a chan \<Rightarrow> 'a chan outcome" where
  "closechan c = (if closed c then Panics else Done (c\<lparr>closed := True\<rparr>))"

text \<open>
  The rendezvous of an unbuffered channel: a sender and a ready receiver meet, the
  value goes from one to the other and the channel itself is unchanged.
\<close>

definition chansync :: "'a chan \<Rightarrow> bool" where
  "chansync c = (cap c = 0 \<and> \<not> closed c)"

section \<open>The Limiter\<close>

datatype error = ErrClosed

record 'a Limiter =
  lock :: bool
  nextTime :: Time
  d :: Duration
  "values" :: "'a chan"


text \<open>\<^verbatim>\<open>NewCapacity\<close>; the first argument is what \<^verbatim>\<open>time.Now()\<close> returns in it.\<close>

definition NewCapacity :: "Time \<Rightarrow> Duration \<Rightarrow> int \<Rightarrow> 'a Limiter outcome" where
  "NewCapacity now dur capacity =
     (case make_chan capacity of
        Done c \<Rightarrow> Done \<lparr>lock = False, nextTime = now, d = dur, values = c\<rparr>
      | Panics \<Rightarrow> Panics
      | Blocks \<Rightarrow> Blocks)"


text \<open>
  \<^verbatim>\<open>Push\<close> and \<^verbatim>\<open>Close\<close> are one channel operation each; the deferred function
  turns the panic of the operation into the result \<^verbatim>\<open>ErrClosed\<close>.
\<close>

definition Push :: "'a Limiter \<Rightarrow> 'a iface \<Rightarrow> (error option \<times> 'a Limiter) outcome" where
  "Push l v =
     (case chansend (values l) v of
        Done c \<Rightarrow> Done (None, l\<lparr>values := c\<rparr>)
      | Panics \<Rightarrow> Done (Some ErrClosed, l)
      | Blocks \<Rightarrow> Blocks)"

definition Close :: "'a Limiter \<Rightarrow> (error option \<times> 'a Limiter) outcome" where
  "Close l =
     (case closechan (values l) of
        Done c \<Rightarrow> Done (None, l\<lparr>values := c\<rparr>)
      | Panics \<Rightarrow> Done (Some ErrClosed, l)
      | Blocks \<Rightarrow> Blocks)"

text \<open>
  \<^verbatim>\<open>PopOk\<close> and \<^verbatim>\<open>waitAndBumpNextTime\<close> run in several steps, between which other
  goroutines run and time passes. A step either moves to the next statement or returns.
\<close>

datatype ('p, 'r) progress = Goto 'p | Return 'r

text \<open>
  The statements of \<^verbatim>\<open>waitAndBumpNextTime\<close>: \<^verbatim>\<open>l.lock.Lock()\<close>, the call of
  \<^verbatim>\<open>time.Sleep(l.nextTime.Sub(time.Now()))\<close>, the sleep until the instant it ends at,
  \<^verbatim>\<open>l.nextTime = time.Now().Add(l.d)\<close>, and the deferred \<^verbatim>\<open>l.lock.Unlock()\<close>.
\<close>

datatype gate_pc = AtLock | AtSleep | Sleeping Time | AtBump | AtUnlock

fun waitAndBumpNextTime ::
  "Time \<Rightarrow> gate_pc \<Rightarrow> 'a Limiter \<Rightarrow> ((gate_pc, unit) progress \<times> 'a Limiter) outcome" where
  "waitAndBumpNextTime now AtLock l =
     (if lock l then Blocks else Done (Goto AtSleep, l\<lparr>lock := True\<rparr>))"
| "waitAndBumpNextTime now AtSleep l =
     (let x = nextTime l - now
      in if x \<le> 0 then Done (Goto AtBump, l) else Done (Goto (Sleeping (now + x)), l))"
| "waitAndBumpNextTime now (Sleeping w) l =
     (if now < w then Blocks else Done (Goto AtBump, l))"
| "waitAndBumpNextTime now AtBump l =
     Done (Goto AtUnlock, l\<lparr>nextTime := now + d l\<rparr>)"
| "waitAndBumpNextTime now AtUnlock l =
     (if lock l then Done (Return (), l\<lparr>lock := False\<rparr>) else Panics)"

text \<open>
  The statements of \<^verbatim>\<open>PopOk\<close>: the receive, the call of \<^verbatim>\<open>waitAndBumpNextTime\<close>
  (holding \<^verbatim>\<open>v\<close> and \<^verbatim>\<open>ok\<close>), and \<^verbatim>\<open>return v, ok\<close>.
\<close>

datatype 'a popok_pc = AtRecv | InGate "'a iface" bool gate_pc | AtReturn "'a iface" bool

fun PopOk ::
  "Time \<Rightarrow> 'a popok_pc \<Rightarrow> 'a Limiter \<Rightarrow>
     (('a popok_pc, 'a iface \<times> bool) progress \<times> 'a Limiter) outcome" where
  "PopOk now AtRecv l =
     (case chanrecv (values l) of
        Blocks \<Rightarrow> Blocks
      | Panics \<Rightarrow> Panics
      | Done ((v, ok), c) \<Rightarrow>
          if \<not> ok then Done (Return (nil, ok), l\<lparr>values := c\<rparr>)
          else Done (Goto (InGate v ok AtLock), l\<lparr>values := c\<rparr>))"
| "PopOk now (InGate v ok g) l =
     (case waitAndBumpNextTime now g l of
        Blocks \<Rightarrow> Blocks
      | Panics \<Rightarrow> Panics
      | Done (Goto g', l') \<Rightarrow> Done (Goto (InGate v ok g'), l')
      | Done (Return _, l') \<Rightarrow> Done (Goto (AtReturn v ok), l'))"
| "PopOk now (AtReturn v ok) l = Done (Return (v, ok), l)"

text \<open>\<^verbatim>\<open>Pop\<close> calls \<^verbatim>\<open>PopOk\<close> and returns the value alone.\<close>

definition Pop ::
  "Time \<Rightarrow> 'a popok_pc \<Rightarrow> 'a Limiter \<Rightarrow>
     (('a popok_pc, 'a iface) progress \<times> 'a Limiter) outcome" where
  "Pop now p l =
     (case PopOk now p l of
        Blocks \<Rightarrow> Blocks
      | Panics \<Rightarrow> Panics
      | Done (Goto p', l') \<Rightarrow> Done (Goto p', l')
      | Done (Return (v, _), l') \<Rightarrow> Done (Return v, l'))"

section \<open>Goroutines sharing one Limiter\<close>

text \<open>
  A goroutine is idle or inside one call. The system is the Limiter, the clock, the
  goroutines and the record of what has happened: every return of a call, and every
  statement a \<^verbatim>\<open>PopOk\<close> has reached, with the instant.
\<close>

datatype 'a frame =
    Idle
  | InPush "'a iface"
  | InClose
  | InPopOk "'a popok_pc"
  | InPop "'a popok_pc"

datatype 'a event =
    PushRet nat "'a iface" "error option"
  | CloseRet nat "error option"
  | Reached nat "'a popok_pc" Time
  | PopOkRet nat "'a iface" bool Time
  | PopRet nat "'a iface" Time

record 'a sys =
  lim :: "'a Limiter"
  clock :: Time
  frames :: "nat \<Rightarrow> 'a frame"
  hist :: "'a event list"

definition boot :: "'a Limiter \<Rightarrow> Time \<Rightarrow> 'a sys" where
  "boot l now = \<lparr>lim = l, clock = now, frames = (\<lambda>_. Idle), hist = []\<rparr>"

text \<open>
  What can happen next: time passes, an idle goroutine calls a method, a goroutine
  runs its next statement, or a sender and a receiver meet on an unbuffered channel.
\<close>

datatype 'a call = CallPush "'a iface" | CallPop | CallPopOk | CallClose

datatype 'a act = Tick nat | Call nat "'a call" | Run nat | Sync nat nat

fun enter :: "'a call \<Rightarrow> 'a frame" where
  "enter (CallPush v) = InPush v"
| "enter CallPop = InPop AtRecv"
| "enter CallPopOk = InPopOk AtRecv"
| "enter CallClose = InClose"

fun popping :: "'a frame \<Rightarrow> 'a popok_pc option" where
  "popping (InPopOk p) = Some p"
| "popping (InPop p) = Some p"
| "popping _ = None"

fun resume :: "'a frame \<Rightarrow> 'a popok_pc \<Rightarrow> 'a frame" where
  "resume (InPop _) p = InPop p"
| "resume _ p = InPopOk p"

definition finish :: "'a sys \<Rightarrow> nat \<Rightarrow> 'a Limiter \<Rightarrow> 'a event \<Rightarrow> 'a sys" where
  "finish s t l e = s\<lparr>lim := l, frames := (frames s)(t := Idle), hist := hist s @ [e]\<rparr>"

definition advance :: "'a sys \<Rightarrow> nat \<Rightarrow> 'a Limiter \<Rightarrow> 'a popok_pc \<Rightarrow> 'a sys" where
  "advance s t l p =
     s\<lparr>lim := l, frames := (frames s)(t := resume (frames s t) p),
       hist := hist s @ [Reached t p (clock s)]\<rparr>"

fun run_frame :: "'a sys \<Rightarrow> nat \<Rightarrow> 'a frame \<Rightarrow> 'a sys outcome" where
  "run_frame s t Idle = Blocks"
| "run_frame s t (InPush v) =
     (case Push (lim s) v of
        Blocks \<Rightarrow> Blocks
      | Panics \<Rightarrow> Panics
      | Done (err, l) \<Rightarrow> Done (finish s t l (PushRet t v err)))"
| "run_frame s t InClose =
     (case Close (lim s) of
        Blocks \<Rightarrow> Blocks
      | Panics \<Rightarrow> Panics
      | Done (err, l) \<Rightarrow> Done (finish s t l (CloseRet t err)))"
| "run_frame s t (InPopOk p) =
     (case PopOk (clock s) p (lim s) of
        Blocks \<Rightarrow> Blocks
      | Panics \<Rightarrow> Panics
      | Done (Goto p', l) \<Rightarrow> Done (advance s t l p')
      | Done (Return (v, ok), l) \<Rightarrow> Done (finish s t l (PopOkRet t v ok (clock s))))"
| "run_frame s t (InPop p) =
     (case Pop (clock s) p (lim s) of
        Blocks \<Rightarrow> Blocks
      | Panics \<Rightarrow> Panics
      | Done (Goto p', l) \<Rightarrow> Done (advance s t l p')
      | Done (Return v, l) \<Rightarrow> Done (finish s t l (PopRet t v (clock s))))"

definition meet :: "'a sys \<Rightarrow> nat \<Rightarrow> nat \<Rightarrow> 'a sys outcome" where
  "meet s sndr rcvr =
     (case frames s sndr of
        InPush v \<Rightarrow>
          if popping (frames s rcvr) = Some AtRecv \<and> chansync (values (lim s))
          then Done (advance (finish s sndr (lim s) (PushRet sndr v None)) rcvr (lim s)
                       (InGate v True AtLock))
          else Blocks
      | _ \<Rightarrow> Blocks)"

fun step :: "'a sys \<Rightarrow> 'a act \<Rightarrow> 'a sys outcome" where
  "step s (Tick n) = Done (s\<lparr>clock := clock s + int n\<rparr>)"
| "step s (Call t c) =
     (if frames s t = Idle then Done (s\<lparr>frames := (frames s)(t := enter c)\<rparr>) else Blocks)"
| "step s (Run t) = run_frame s t (frames s t)"
| "step s (Sync sndr rcvr) = meet s sndr rcvr"

fun run :: "'a sys \<Rightarrow> 'a act list \<Rightarrow> 'a sys outcome" where
  "run s [] = Done s"
| "run s (a # as) =
     (case step s a of
        Blocks \<Rightarrow> Blocks
      | Panics \<Rightarrow> Panics
      | Done s' \<Rightarrow> run s' as)"

section \<open>What is observed of a run\<close>

text \<open>The event a \<^verbatim>\<open>Pop\<close> or a \<^verbatim>\<open>PopOk\<close> frame records when it returns.\<close>

fun pop_ret :: "'a frame \<Rightarrow> nat \<Rightarrow> 'a iface \<Rightarrow> bool \<Rightarrow> Time \<Rightarrow> 'a event" where
  "pop_ret (InPop _) t v ok n = PopRet t v n"
| "pop_ret _ t v ok n = PopOkRet t v ok n"

text \<open>The values whose \<^verbatim>\<open>Push\<close> returned \<^verbatim>\<open>nil\<close>, in the order of the returns.\<close>

fun pushed_of :: "'a event \<Rightarrow> 'a iface list" where
  "pushed_of (PushRet t v None) = [v]"
| "pushed_of _ = []"

definition pushed :: "'a event list \<Rightarrow> 'a iface list" where
  "pushed h = concat (map pushed_of h)"

text \<open>The values the receive statement of \<^verbatim>\<open>PopOk\<close> obtained, in the order they left the channel.\<close>

fun taken_of :: "'a event \<Rightarrow> 'a iface list" where
  "taken_of (Reached t (InGate v ok AtLock) n) = [v]"
| "taken_of _ = []"

definition taken :: "'a event list \<Rightarrow> 'a iface list" where
  "taken h = concat (map taken_of h)"

text \<open>The values \<^verbatim>\<open>Pop\<close> and \<^verbatim>\<open>PopOk\<close> returned, and the results of \<^verbatim>\<open>PopOk\<close>, in the order of the returns.\<close>

fun popped_of :: "'a event \<Rightarrow> 'a iface list" where
  "popped_of (PopOkRet t v ok n) = [v]"
| "popped_of (PopRet t v n) = [v]"
| "popped_of _ = []"

definition popped :: "'a event list \<Rightarrow> 'a iface list" where
  "popped h = concat (map popped_of h)"

fun result_of :: "'a event \<Rightarrow> ('a iface \<times> bool) list" where
  "result_of (PopOkRet t v ok n) = [(v, ok)]"
| "result_of _ = []"

definition results :: "'a event list \<Rightarrow> ('a iface \<times> bool) list" where
  "results h = concat (map result_of h)"

fun good_of :: "'a event \<Rightarrow> 'a iface list" where
  "good_of (PopOkRet t v ok n) = (if ok then [v] else [])"
| "good_of _ = []"

definition goods :: "'a event list \<Rightarrow> 'a iface list" where
  "goods h = concat (map good_of h)"

fun bad_of :: "'a event \<Rightarrow> unit list" where
  "bad_of (PopOkRet t v ok n) = (if ok then [] else [()])"
| "bad_of _ = []"

definition bads :: "'a event list \<Rightarrow> nat" where
  "bads h = length (concat (map bad_of h))"

text \<open>The instants at which a \<^verbatim>\<open>PopOk\<close> returned a value with \<^verbatim>\<open>ok = true\<close>.\<close>

fun release_of :: "'a event \<Rightarrow> Time list" where
  "release_of (PopOkRet t v ok n) = (if ok then [n] else [])"
| "release_of _ = []"

definition releases :: "'a event list \<Rightarrow> Time list" where
  "releases h = concat (map release_of h)"

text \<open>
  The readings of the clock at which \<^verbatim>\<open>l.nextTime = time.Now().Add(l.d)\<close> ran, in
  order, and the values it gave \<^verbatim>\<open>nextTime\<close>.
\<close>

fun bump_of :: "'a event \<Rightarrow> Time list" where
  "bump_of (Reached t (InGate v ok AtUnlock) n) = [n]"
| "bump_of _ = []"

definition bumps :: "'a event list \<Rightarrow> Time list" where
  "bumps h = concat (map bump_of h)"

text \<open>The results of the calls of \<^verbatim>\<open>Close\<close>, in the order of the returns.\<close>

fun close_of :: "'a event \<Rightarrow> error option list" where
  "close_of (CloseRet t e) = [e]"
| "close_of _ = []"

definition closes :: "'a event list \<Rightarrow> error option list" where
  "closes h = concat (map close_of h)"


text \<open>No instant is earlier than the one before it.\<close>

fun rising :: "Time list \<Rightarrow> bool" where
  "rising (a # b # ts) = (a \<le> b \<and> rising (b # ts))"
| "rising _ = True"

text \<open>The first result is success and every later one is \<^verbatim>\<open>ErrClosed\<close>.\<close>

fun one_shot :: "error option list \<Rightarrow> bool" where
  "one_shot [] = True"
| "one_shot (e # es) = (e = None \<and> es = replicate (length es) (Some ErrClosed))"

text \<open>Conditions on what the goroutines of a run call.\<close>

fun pops_by :: "nat \<Rightarrow> 'a act \<Rightarrow> bool" where
  "pops_by c (Call t CallPop) = (t = c)"
| "pops_by c (Call t CallPopOk) = (t = c)"
| "pops_by c _ = True"

fun no_Close :: "'a act \<Rightarrow> bool" where
  "no_Close (Call t CallClose) = False"
| "no_Close _ = True"

fun no_Pop :: "'a act \<Rightarrow> bool" where
  "no_Pop (Call t CallPop) = False"
| "no_Pop _ = True"

section \<open>Invariants\<close>

text \<open>
  Where a goroutine is in \<^verbatim>\<open>waitAndBumpNextTime\<close>, whether it is between
  \<^verbatim>\<open>Lock\<close> and \<^verbatim>\<open>Unlock\<close>, and the value it holds between the receive and the
  return.
\<close>

fun holds_lock :: "gate_pc \<Rightarrow> bool" where
  "holds_lock AtLock = False"
| "holds_lock _ = True"

fun gate_of :: "'a frame \<Rightarrow> gate_pc option" where
  "gate_of f = (case popping f of Some (InGate v ok g) \<Rightarrow> Some g | _ \<Rightarrow> None)"

definition in_cs :: "'a frame \<Rightarrow> bool" where
  "in_cs f = (case gate_of f of Some g \<Rightarrow> holds_lock g | None \<Rightarrow> False)"

fun inflight :: "'a frame \<Rightarrow> 'a iface list" where
  "inflight f =
     (case popping f of
        Some (InGate v ok g) \<Rightarrow> [v]
      | Some (AtReturn v ok) \<Rightarrow> [v]
      | _ \<Rightarrow> [])"

fun flag_of :: "'a frame \<Rightarrow> bool" where
  "flag_of f =
     (case popping f of
        Some (InGate v ok g) \<Rightarrow> ok
      | Some (AtReturn v ok) \<Rightarrow> ok
      | _ \<Rightarrow> True)"

definition bounded :: "'a sys \<Rightarrow> bool" where
  "bounded s \<longleftrightarrow> length (buf (values (lim s))) \<le> cap (values (lim s))"

definition exclusive :: "'a sys \<Rightarrow> bool" where
  "exclusive s \<longleftrightarrow>
     (\<forall>t. in_cs (frames s t) \<longrightarrow> lock (lim s)) \<and>
     (\<forall>t u. in_cs (frames s t) \<and> in_cs (frames s u) \<longrightarrow> t = u)"

definition waited :: "'a sys \<Rightarrow> bool" where
  "waited s \<longleftrightarrow>
     (\<forall>t. gate_of (frames s t) = Some AtBump \<longrightarrow> nextTime (lim s) \<le> clock s) \<and>
     (\<forall>t w. gate_of (frames s t) = Some (Sleeping w) \<longrightarrow> nextTime (lim s) \<le> w)"

definition flagged :: "'a sys \<Rightarrow> bool" where
  "flagged s \<longleftrightarrow> (\<forall>t. flag_of (frames s t))"

definition safe :: "'a sys \<Rightarrow> bool" where
  "safe s \<longleftrightarrow> bounded s \<and> exclusive s \<and> waited s \<and> flagged s"

definition fifo :: "'a sys \<Rightarrow> bool" where
  "fifo s \<longleftrightarrow> bounded s \<and> pushed (hist s) = taken (hist s) @ buf (values (lim s))"

definition shut :: "'a sys \<Rightarrow> bool" where
  "shut s \<longleftrightarrow>
     (if closed (values (lim s)) then closes (hist s) \<noteq> [] \<and> one_shot (closes (hist s))
      else closes (hist s) = [])"

text \<open>A Limiter with room for two values and an interval of ten nanoseconds, made at instant 0.\<close>

definition demo :: "nat Limiter" where
  "demo = \<lparr>lock = False, nextTime = 0, d = 10,
            values = \<lparr>buf = [], cap = 2, closed = False\<rparr>\<rparr>"


text \<open>What is seen of the state a run ends in, if it ends.\<close>

definition seen :: "('a sys \<Rightarrow> 'b) \<Rightarrow> 'a sys outcome \<Rightarrow> 'b option" where
  "seen f r = (case r of Done s \<Rightarrow> Some (f s) | _ \<Rightarrow> None)"


text \<open>A Limiter with a negative interval, and one with room for one value only.\<close>

definition demo_neg :: "nat Limiter" where
  "demo_neg = \<lparr>lock = False, nextTime = 0, d = - 5,
            values = \<lparr>buf = [], cap = 1, closed = False\<rparr>\<rparr>"

definition demo1 :: "nat Limiter" where
  "demo1 = \<lparr>lock = False, nextTime = 0, d = 10,
            values = \<lparr>buf = [], cap = 1, closed = False\<rparr>\<rparr>"

text \<open>
  One producer and one consumer. The first \<^verbatim>\<open>PopOk\<close> sets \<^verbatim>\<open>nextTime\<close> at instant
  0 and returns at instant 5; the second sleeps until instant 10 and returns then.
\<close>

definition late_return :: "nat act list" where
  "late_return =
     [Call 0 (CallPush (Val 1)), Run 0,
      Call 1 CallPopOk, Run 1, Run 1, Run 1, Run 1, Run 1, Tick 5, Run 1,
      Call 0 (CallPush (Val 2)), Run 0,
      Call 1 CallPopOk, Run 1, Run 1, Run 1, Tick 5, Run 1, Run 1, Run 1, Run 1]"

text \<open>One value is pushed and popped, up to the statement that sets \<^verbatim>\<open>nextTime\<close>.\<close>

definition one_bump :: "nat act list" where
  "one_bump =
     [Call 0 (CallPush (Val 1)), Run 0, Call 1 CallPopOk, Run 1, Run 1, Run 1, Run 1]"

text \<open>Only goroutine \<open>c\<close> is inside \<^verbatim>\<open>Pop\<close> or \<^verbatim>\<open>PopOk\<close>.\<close>

definition lone :: "nat \<Rightarrow> 'a sys \<Rightarrow> bool" where
  "lone c s \<longleftrightarrow> (\<forall>t. t \<noteq> c \<longrightarrow> popping (frames s t) = None)"

text \<open>The Limiter is open and no goroutine is inside \<^verbatim>\<open>Close\<close>.\<close>

definition unclosing :: "'a sys \<Rightarrow> bool" where
  "unclosing s \<longleftrightarrow> \<not> closed (values (lim s)) \<and> (\<forall>t. frames s t \<noteq> InClose)"

text \<open>No goroutine is inside \<^verbatim>\<open>Pop\<close>.\<close>

definition unPop :: "'a sys \<Rightarrow> bool" where
  "unPop s \<longleftrightarrow> (\<forall>t p. frames s t \<noteq> InPop p)"

text \<open>One consumer, nobody closes: what was popped, then what the consumer holds, is what was taken.\<close>

definition served :: "nat \<Rightarrow> 'a sys \<Rightarrow> bool" where
  "served c s \<longleftrightarrow>
     lone c s \<and> unclosing s \<and> popped (hist s) @ inflight (frames s c) = taken (hist s)"

text \<open>
  A producer pushes 1, 2 and 3 into a Limiter with room for two; a consumer pops once
  with \<^verbatim>\<open>Pop\<close> and has started a \<^verbatim>\<open>PopOk\<close>.
\<close>

definition three_pushes :: "nat act list" where
  "three_pushes =
     [Call 0 (CallPush (Val 1)), Run 0, Call 0 (CallPush (Val 2)), Run 0,
      Call 1 CallPop, Run 1, Run 1, Run 1, Run 1, Run 1, Run 1,
      Call 0 (CallPush (Val 3)), Run 0, Call 1 CallPopOk, Run 1]"

text \<open>
  One consumer that calls \<^verbatim>\<open>PopOk\<close> only: its results are the values taken, each with
  \<^verbatim>\<open>true\<close>, then \<^verbatim>\<open>(nil, false)\<close> some number of times; and once \<^verbatim>\<open>(nil, false)\<close> has
  been returned the Limiter is closed and nothing is left in it.
\<close>

definition ended :: "nat \<Rightarrow> 'a sys \<Rightarrow> bool" where
  "ended c s \<longleftrightarrow>
     results (hist s) =
       map (\<lambda>v. (v, True)) (goods (hist s)) @ replicate (bads (hist s)) (nil, False) \<and>
     taken (hist s) = goods (hist s) @ inflight (frames s c) \<and>
     (0 < bads (hist s) \<longrightarrow>
        closed (values (lim s)) \<and> buf (values (lim s)) = [] \<and> inflight (frames s c) = [])"

definition drained :: "nat \<Rightarrow> 'a sys \<Rightarrow> bool" where
  "drained c s \<longleftrightarrow> lone c s \<and> unPop s \<and> flagged s \<and> ended c s"

text \<open>
  A producer pushes 1 and 2 and closes; a consumer calls \<^verbatim>\<open>PopOk\<close> four times, waiting
  for the gate before the second value.
\<close>

definition push_close_drain :: "nat act list" where
  "push_close_drain =
     [Call 0 (CallPush (Val 1)), Run 0, Call 0 (CallPush (Val 2)), Run 0, Call 0 CallClose, Run 0,
      Call 1 CallPopOk, Run 1, Run 1, Run 1, Run 1, Run 1, Run 1,
      Call 1 CallPopOk, Run 1, Run 1, Run 1, Tick 10, Run 1, Run 1, Run 1, Run 1,
      Call 1 CallPopOk, Run 1, Call 1 CallPopOk, Run 1]"

text \<open>
  A run in which every call of \<^verbatim>\<open>Pop\<close> is replaced by a call of \<^verbatim>\<open>PopOk\<close>, and what
  the two runs agree in: everything but which of the two a goroutine is in, and the flag
  in the events of return.
\<close>

fun as_PopOk :: "'a act \<Rightarrow> 'a act" where
  "as_PopOk (Call t CallPop) = Call t CallPopOk"
| "as_PopOk a = a"

fun bare :: "'a frame \<Rightarrow> 'a frame" where
  "bare (InPop p) = InPopOk p"
| "bare f = f"

fun forget :: "'a event \<Rightarrow> 'a event" where
  "forget (PopOkRet t v ok n) = PopRet t v n"
| "forget e = e"

definition echo :: "'a sys \<Rightarrow> 'a sys \<Rightarrow> bool" where
  "echo s1 s2 \<longleftrightarrow>
     lim s1 = lim s2 \<and> clock s1 = clock s2 \<and>
     (\<forall>u. bare (frames s1 u) = bare (frames s2 u)) \<and>
     map forget (hist s1) = map forget (hist s2)"

fun both :: "('a \<Rightarrow> 'b \<Rightarrow> bool) \<Rightarrow> 'a outcome \<Rightarrow> 'b outcome \<Rightarrow> bool" where
  "both R Blocks Blocks = True"
| "both R Panics Panics = True"
| "both R (Done x) (Done y) = R x y"
| "both R _ _ = False"

text \<open>A value \<^verbatim>\<open>nil\<close> is pushed and popped; the Limiter is closed and popped.\<close>

definition pop_of_nil :: "nat act list" where
  "pop_of_nil = [Call 0 (CallPush nil), Run 0, Call 1 CallPop, Run 1, Run 1, Run 1, Run 1, Run 1, Run 1]"

definition pop_of_closed :: "nat act list" where
  "pop_of_closed = [Call 0 CallClose, Run 0, Call 1 CallPop, Run 1]"

text \<open>
  The pacing gate in the words of the specification, as a check of the events of a run.
  A goroutine is outside, or has removed a value from the buffer, has been admitted (has
  exclusive access), is waiting, has passed (the watermark is not in the future), has
  stamped (has set the watermark to now plus the interval), or has released the
  exclusive access and is about to return the value.
\<close>

datatype 'a stage =
    Outside
  | Removed "'a iface"
  | Admitted "'a iface"
  | Waiting "'a iface"
  | Passed "'a iface"
  | Stamped "'a iface"
  | Released "'a iface"

record 'a gate_state =
  mark :: Time
  owner :: "nat option"
  stage :: "nat \<Rightarrow> 'a stage"

fun gate_step :: "Duration \<Rightarrow> 'a gate_state \<Rightarrow> 'a event \<Rightarrow> 'a gate_state option" where
  "gate_step dur m (Reached t (InGate v ok AtLock) n) =
     (if stage m t = Outside then Some (m\<lparr>stage := (stage m)(t := Removed v)\<rparr>) else None)"
| "gate_step dur m (Reached t (InGate v ok AtSleep) n) =
     (if stage m t = Removed v \<and> owner m = None
      then Some (m\<lparr>owner := Some t, stage := (stage m)(t := Admitted v)\<rparr>) else None)"
| "gate_step dur m (Reached t (InGate v ok (Sleeping w)) n) =
     (if stage m t = Admitted v \<and> owner m = Some t \<and> n < mark m \<and> w = mark m
      then Some (m\<lparr>stage := (stage m)(t := Waiting v)\<rparr>) else None)"
| "gate_step dur m (Reached t (InGate v ok AtBump) n) =
     (if (stage m t = Admitted v \<or> stage m t = Waiting v) \<and> owner m = Some t \<and> mark m \<le> n
      then Some (m\<lparr>stage := (stage m)(t := Passed v)\<rparr>) else None)"
| "gate_step dur m (Reached t (InGate v ok AtUnlock) n) =
     (if stage m t = Passed v \<and> owner m = Some t \<and> mark m \<le> n
      then Some (m\<lparr>mark := n + dur, stage := (stage m)(t := Stamped v)\<rparr>) else None)"
| "gate_step dur m (Reached t (AtReturn v ok) n) =
     (if stage m t = Stamped v \<and> owner m = Some t
      then Some (m\<lparr>owner := None, stage := (stage m)(t := Released v)\<rparr>) else None)"
| "gate_step dur m (Reached t AtRecv n) = None"
| "gate_step dur m (PopOkRet t v ok n) =
     (if ok then (if stage m t = Released v then Some (m\<lparr>stage := (stage m)(t := Outside)\<rparr>) else None)
      else (if stage m t = Outside \<and> v = nil then Some m else None))"
| "gate_step dur m (PopRet t v n) =
     (if stage m t = Released v then Some (m\<lparr>stage := (stage m)(t := Outside)\<rparr>)
      else if stage m t = Outside \<and> v = nil then Some m else None)"
| "gate_step dur m (PushRet t v e) = Some m"
| "gate_step dur m (CloseRet t e) = Some m"

fun gate_run :: "Duration \<Rightarrow> 'a gate_state \<Rightarrow> 'a event list \<Rightarrow> 'a gate_state option" where
  "gate_run dur m [] = Some m"
| "gate_run dur m (e # es) =
     (case gate_step dur m e of None \<Rightarrow> None | Some m' \<Rightarrow> gate_run dur m' es)"

definition gate0 :: "Time \<Rightarrow> 'a gate_state" where
  "gate0 t0 = \<lparr>mark = t0, owner = None, stage = (\<lambda>_. Outside)\<rparr>"

definition follows_gate :: "Time \<Rightarrow> Duration \<Rightarrow> 'a event list \<Rightarrow> bool" where
  "follows_gate t0 dur h \<longleftrightarrow> gate_run dur (gate0 t0) h \<noteq> None"

text \<open>The stage a frame is at, and the state of the check that matches a state of the system.\<close>

fun stage_of :: "'a frame \<Rightarrow> 'a stage" where
  "stage_of f =
     (case popping f of
        Some (InGate v ok AtLock) \<Rightarrow> Removed v
      | Some (InGate v ok AtSleep) \<Rightarrow> Admitted v
      | Some (InGate v ok (Sleeping w)) \<Rightarrow> Waiting v
      | Some (InGate v ok AtBump) \<Rightarrow> Passed v
      | Some (InGate v ok AtUnlock) \<Rightarrow> Stamped v
      | Some (AtReturn v ok) \<Rightarrow> Released v
      | _ \<Rightarrow> Outside)"

definition matches :: "Duration \<Rightarrow> 'a sys \<Rightarrow> 'a gate_state \<Rightarrow> bool" where
  "matches dur s m \<longleftrightarrow>
     d (lim s) = dur \<and> mark m = nextTime (lim s) \<and>
     stage m = (\<lambda>t. stage_of (frames s t)) \<and>
     (\<forall>t. (owner m = Some t) = in_cs (frames s t))"

definition gated :: "Time \<Rightarrow> Duration \<Rightarrow> 'a sys \<Rightarrow> bool" where
  "gated t0 dur s \<longleftrightarrow> (\<exists>m. gate_run dur (gate0 t0) (hist s) = Some m \<and> matches dur s m)"

section \<open>The steps of a run, case by case\<close>

lemma finish_simps [simp]:
  "lim (finish s t l e) = l" "clock (finish s t l e) = clock s"
  "frames (finish s t l e) = (frames s)(t := Idle)" "hist (finish s t l e) = hist s @ [e]"
  by (simp_all add: finish_def)

lemma advance_simps [simp]:
  "lim (advance s t l p) = l" "clock (advance s t l p) = clock s"
  "frames (advance s t l p) = (frames s)(t := resume (frames s t) p)"
  "hist (advance s t l p) = hist s @ [Reached t p (clock s)]"
  by (simp_all add: advance_def)

lemma popping_resume [simp]: "popping (resume f p) = Some p"
  by (cases f) simp_all

lemma gate_DoneE:
  assumes "waitAndBumpNextTime now g l = Done (r, l')"
  obtains
    "g = AtLock" "\<not> lock l" "r = Goto AtSleep" "l' = l\<lparr>lock := True\<rparr>"
  | "g = AtSleep" "nextTime l \<le> now" "r = Goto AtBump" "l' = l"
  | "g = AtSleep" "now < nextTime l" "r = Goto (Sleeping (nextTime l))" "l' = l"
  | w where "g = Sleeping w" "w \<le> now" "r = Goto AtBump" "l' = l"
  | "g = AtBump" "r = Goto AtUnlock" "l' = l\<lparr>nextTime := now + d l\<rparr>"
  | "g = AtUnlock" "lock l" "r = Return ()" "l' = l\<lparr>lock := False\<rparr>"
proof (cases g)
  case AtLock with assms that(1) show ?thesis by (simp split: if_splits)
next
  case AtSleep
  with assms have "nextTime l \<le> now \<and> r = Goto AtBump \<and> l' = l
      \<or> now < nextTime l \<and> r = Goto (Sleeping (nextTime l)) \<and> l' = l"
    by (auto simp: Let_def split: if_splits)
  with AtSleep that(2,3) show ?thesis by blast
next
  case (Sleeping w) with assms that(4) show ?thesis by (simp split: if_splits)
next
  case AtBump with assms that(5) show ?thesis by simp
next
  case AtUnlock with assms that(6) show ?thesis by (simp split: if_splits)
qed

lemma PopOk_DoneE:
  assumes "PopOk now p l = Done (r, l')"
  obtains
    v vs where "p = AtRecv" "buf (values l) = v # vs" "r = Goto (InGate v True AtLock)"
      "l' = l\<lparr>values := (values l)\<lparr>buf := vs\<rparr>\<rparr>"
  | "p = AtRecv" "buf (values l) = []" "closed (values l)" "r = Return (nil, False)" "l' = l"
  | v ok where "p = InGate v ok AtLock" "\<not> lock l" "r = Goto (InGate v ok AtSleep)"
      "l' = l\<lparr>lock := True\<rparr>"
  | v ok where "p = InGate v ok AtSleep" "nextTime l \<le> now" "r = Goto (InGate v ok AtBump)" "l' = l"
  | v ok where "p = InGate v ok AtSleep" "now < nextTime l"
      "r = Goto (InGate v ok (Sleeping (nextTime l)))" "l' = l"
  | v ok w where "p = InGate v ok (Sleeping w)" "w \<le> now" "r = Goto (InGate v ok AtBump)" "l' = l"
  | v ok where "p = InGate v ok AtBump" "r = Goto (InGate v ok AtUnlock)"
      "l' = l\<lparr>nextTime := now + d l\<rparr>"
  | v ok where "p = InGate v ok AtUnlock" "lock l" "r = Goto (AtReturn v ok)" "l' = l\<lparr>lock := False\<rparr>"
  | v ok where "p = AtReturn v ok" "r = Return (v, ok)" "l' = l"
proof (cases p)
  case AtRecv
  with assms that(1,2) show ?thesis
    by (auto simp: chanrecv_def split: list.splits if_splits)
next
  case (InGate v ok g)
  with assms obtain r0 where g: "waitAndBumpNextTime now g l = Done (r0, l')"
    and r: "r = (case r0 of Goto g' \<Rightarrow> Goto (InGate v ok g') | Return _ \<Rightarrow> Goto (AtReturn v ok))"
    by (auto split: outcome.splits progress.splits)
  from g show ?thesis
    by (cases rule: gate_DoneE) (use InGate r that in auto)
next
  case (AtReturn v ok)
  with assms that(9) show ?thesis by auto
qed

lemma step_DoneE:
  assumes "step s a = Done s'"
  obtains
    (Tick) n where "a = Tick n" "s' = s\<lparr>clock := clock s + int n\<rparr>"
  | (Call) t c where "a = Call t c" "frames s t = Idle" "s' = s\<lparr>frames := (frames s)(t := enter c)\<rparr>"
  | (Refused) t v where "a = Run t" "frames s t = InPush v" "closed (values (lim s))"
      "s' = finish s t (lim s) (PushRet t v (Some ErrClosed))"
  | (Sent) t v where "a = Run t" "frames s t = InPush v" "\<not> closed (values (lim s))"
      "length (buf (values (lim s))) < cap (values (lim s))"
      "s' = finish s t ((lim s)\<lparr>values := (values (lim s))\<lparr>buf := buf (values (lim s)) @ [v]\<rparr>\<rparr>)
              (PushRet t v None)"
  | (Reclosed) t where "a = Run t" "frames s t = InClose" "closed (values (lim s))"
      "s' = finish s t (lim s) (CloseRet t (Some ErrClosed))"
  | (Closed) t where "a = Run t" "frames s t = InClose" "\<not> closed (values (lim s))"
      "s' = finish s t ((lim s)\<lparr>values := (values (lim s))\<lparr>closed := True\<rparr>\<rparr>) (CloseRet t None)"
  | (Goes) t p p' l' where "a = Run t" "popping (frames s t) = Some p"
      "PopOk (clock s) p (lim s) = Done (Goto p', l')" "s' = advance s t l' p'"
  | (Returns) t p v ok l' where "a = Run t" "popping (frames s t) = Some p"
      "PopOk (clock s) p (lim s) = Done (Return (v, ok), l')"
      "s' = finish s t l' (pop_ret (frames s t) t v ok (clock s))"
  | (Met) t u v where "a = Sync t u" "frames s t = InPush v" "popping (frames s u) = Some AtRecv"
      "cap (values (lim s)) = 0" "\<not> closed (values (lim s))"
      "s' = advance (finish s t (lim s) (PushRet t v None)) u (lim s) (InGate v True AtLock)"
proof (cases a)
  case (Tick n) with assms that(1) show ?thesis by auto
next
  case (Call t c) with assms that(2) show ?thesis by (auto split: if_splits)
next
  case (Run t)
  show ?thesis
  proof (cases "frames s t")
    case Idle with assms Run show ?thesis by simp
  next
    case (InPush v)
    with assms Run that(3,4) show ?thesis
      by (auto simp: Push_def chansend_def split: if_splits)
  next
    case InClose
    with assms Run that(5,6) show ?thesis
      by (auto simp: Close_def closechan_def split: if_splits)
  next
    case (InPopOk p)
    with assms Run that(7,8) show ?thesis
      by (auto split: outcome.splits progress.splits prod.splits)
  next
    case (InPop p)
    with assms Run that(7,8) show ?thesis
      by (auto simp: Pop_def split: outcome.splits progress.splits prod.splits)
  qed
next
  case (Sync t u)
  with assms that(9) show ?thesis
    by (auto simp: meet_def chansync_def split: frame.splits if_splits)
qed



lemma gate_of_enter [simp]: "gate_of (enter c) = None"
  by (cases c) simp_all

lemma gate_of_resume [simp]:
  "gate_of (resume f AtRecv) = None"
  "gate_of (resume f (InGate v ok g)) = Some g"
  "gate_of (resume f (AtReturn v ok)) = None"
  by (cases f; simp)+

lemma gate_of_frame [simp]:
  "gate_of Idle = None" "gate_of (InPush x) = None" "gate_of InClose = None"
  by simp_all

lemma gate_of_popping [simp]:
  "popping f = Some AtRecv \<Longrightarrow> gate_of f = None"
  "popping f = Some (InGate v ok g) \<Longrightarrow> gate_of f = Some g"
  "popping f = Some (AtReturn v ok) \<Longrightarrow> gate_of f = None"
  by simp_all

declare gate_of.simps [simp del]

lemma in_cs_simps [simp]:
  "gate_of f = None \<Longrightarrow> \<not> in_cs f"
  "gate_of f = Some AtLock \<Longrightarrow> \<not> in_cs f"
  "gate_of f = Some AtSleep \<Longrightarrow> in_cs f"
  "gate_of f = Some (Sleeping w) \<Longrightarrow> in_cs f"
  "gate_of f = Some AtBump \<Longrightarrow> in_cs f"
  "gate_of f = Some AtUnlock \<Longrightarrow> in_cs f"
  by (simp_all add: in_cs_def)

lemma exclusive_lock: "exclusive s \<Longrightarrow> in_cs (frames s t) \<Longrightarrow> lock (lim s)"
  unfolding exclusive_def by blast

lemma step_cases [consumes 1, case_names Tick Call Refused Sent Reclosed Closed Took Drained
    Locked Passed Slept Woke Bumped Unlocked Returned Met]:
  assumes "step s a = Done s'"
  obtains
    n where "a = Tick n" "s' = s\<lparr>clock := clock s + int n\<rparr>"
  | t c where "a = Call t c" "frames s t = Idle" "s' = s\<lparr>frames := (frames s)(t := enter c)\<rparr>"
  | t v where "a = Run t" "frames s t = InPush v" "closed (values (lim s))"
      "s' = finish s t (lim s) (PushRet t v (Some ErrClosed))"
  | t v where "a = Run t" "frames s t = InPush v" "\<not> closed (values (lim s))"
      "length (buf (values (lim s))) < cap (values (lim s))"
      "s' = finish s t ((lim s)\<lparr>values := (values (lim s))\<lparr>buf := buf (values (lim s)) @ [v]\<rparr>\<rparr>)
              (PushRet t v None)"
  | t where "a = Run t" "frames s t = InClose" "closed (values (lim s))"
      "s' = finish s t (lim s) (CloseRet t (Some ErrClosed))"
  | t where "a = Run t" "frames s t = InClose" "\<not> closed (values (lim s))"
      "s' = finish s t ((lim s)\<lparr>values := (values (lim s))\<lparr>closed := True\<rparr>\<rparr>) (CloseRet t None)"
  | t v vs where "a = Run t" "popping (frames s t) = Some AtRecv" "buf (values (lim s)) = v # vs"
      "s' = advance s t ((lim s)\<lparr>values := (values (lim s))\<lparr>buf := vs\<rparr>\<rparr>) (InGate v True AtLock)"
  | t where "a = Run t" "popping (frames s t) = Some AtRecv" "buf (values (lim s)) = []"
      "closed (values (lim s))"
      "s' = finish s t (lim s) (pop_ret (frames s t) t nil False (clock s))"
  | t v ok where "a = Run t" "popping (frames s t) = Some (InGate v ok AtLock)" "\<not> lock (lim s)"
      "s' = advance s t ((lim s)\<lparr>lock := True\<rparr>) (InGate v ok AtSleep)"
  | t v ok where "a = Run t" "popping (frames s t) = Some (InGate v ok AtSleep)"
      "nextTime (lim s) \<le> clock s" "s' = advance s t (lim s) (InGate v ok AtBump)"
  | t v ok where "a = Run t" "popping (frames s t) = Some (InGate v ok AtSleep)"
      "clock s < nextTime (lim s)"
      "s' = advance s t (lim s) (InGate v ok (Sleeping (nextTime (lim s))))"
  | t v ok w where "a = Run t" "popping (frames s t) = Some (InGate v ok (Sleeping w))"
      "w \<le> clock s" "s' = advance s t (lim s) (InGate v ok AtBump)"
  | t v ok where "a = Run t" "popping (frames s t) = Some (InGate v ok AtBump)"
      "s' = advance s t ((lim s)\<lparr>nextTime := clock s + d (lim s)\<rparr>) (InGate v ok AtUnlock)"
  | t v ok where "a = Run t" "popping (frames s t) = Some (InGate v ok AtUnlock)" "lock (lim s)"
      "s' = advance s t ((lim s)\<lparr>lock := False\<rparr>) (AtReturn v ok)"
  | t v ok where "a = Run t" "popping (frames s t) = Some (AtReturn v ok)"
      "s' = finish s t (lim s) (pop_ret (frames s t) t v ok (clock s))"
  | t u v where "a = Sync t u" "frames s t = InPush v" "popping (frames s u) = Some AtRecv"
      "t \<noteq> u" "cap (values (lim s)) = 0" "\<not> closed (values (lim s))"
      "s' = s\<lparr>frames := (frames s)(t := Idle, u := resume (frames s u) (InGate v True AtLock)),
              hist := hist s @ [PushRet t v None, Reached u (InGate v True AtLock) (clock s)]\<rparr>"
  using assms
proof (cases rule: step_DoneE)
  case (Tick n) then show ?thesis by (rule that(1))
next
  case (Call t c) then show ?thesis by (rule that(2))
next
  case (Refused t v) then show ?thesis by (rule that(3))
next
  case (Sent t v) then show ?thesis by (rule that(4))
next
  case (Reclosed t) then show ?thesis by (rule that(5))
next
  case (Closed t) then show ?thesis by (rule that(6))
next
  case (Goes t p p' l')
  from Goes(3) show ?thesis
  proof (cases rule: PopOk_DoneE)
    case (1 v vs) with Goes show ?thesis by - (rule that(7) [of t v vs]; simp)
  next
    case 2 then show ?thesis by simp
  next
    case (3 v ok) with Goes show ?thesis by - (rule that(9) [of t v ok]; simp)
  next
    case (4 v ok) with Goes show ?thesis by - (rule that(10) [of t v ok]; simp)
  next
    case (5 v ok) with Goes show ?thesis by - (rule that(11) [of t v ok]; simp)
  next
    case (6 v ok w) with Goes show ?thesis by - (rule that(12) [of t v ok w]; simp)
  next
    case (7 v ok) with Goes show ?thesis by - (rule that(13) [of t v ok]; simp)
  next
    case (8 v ok) with Goes show ?thesis by - (rule that(14) [of t v ok]; simp)
  next
    case (9 v ok) then show ?thesis by simp
  qed
next
  case (Returns t p v ok l')
  from Returns(3) show ?thesis
  proof (cases rule: PopOk_DoneE)
    case 2 with Returns show ?thesis by - (rule that(8) [of t]; simp)
  next
    case (9 v' ok') with Returns show ?thesis by - (rule that(15) [of t v ok]; simp)
  qed simp_all
next
  case (Met t u v)
  moreover from Met have "t \<noteq> u" by auto
  ultimately show ?thesis
    by - (rule that(16) [of t u v]; simp add: advance_def finish_def)
qed

lemma step_cap: "step s a = Done s' \<Longrightarrow> cap (values (lim s')) = cap (values (lim s))"
  by (erule step_cases; simp)

lemma step_d: "step s a = Done s' \<Longrightarrow> d (lim s') = d (lim s)"
  by (erule step_cases; simp)

lemma step_bounded: "step s a = Done s' \<Longrightarrow> bounded s \<Longrightarrow> bounded s'"
  unfolding bounded_def by (erule step_cases; simp)


lemma exclusive_upd:
  assumes ex: "exclusive s" and fr: "frames s' = (frames s)(t := f')"
    and A: "in_cs f' \<Longrightarrow> lock (lim s')"
    and B: "in_cs f' \<Longrightarrow> \<not> in_cs (frames s t) \<Longrightarrow> \<not> lock (lim s)"
    and C: "lock (lim s) \<Longrightarrow> \<not> lock (lim s') \<Longrightarrow> in_cs (frames s t)"
  shows "exclusive s'"
proof -
  from fr have own: "frames s' t = f'"
    and other: "\<And>u. u \<noteq> t \<Longrightarrow> frames s' u = frames s u"
    by simp_all
  from ex have L: "\<And>u. in_cs (frames s u) \<Longrightarrow> lock (lim s)"
    and U: "\<And>u u'. in_cs (frames s u) \<Longrightarrow> in_cs (frames s u') \<Longrightarrow> u = u'"
    unfolding exclusive_def by blast+
  have "lock (lim s')" if "in_cs (frames s' u)" for u
  proof (cases "u = t")
    case True with that own A show ?thesis by simp
  next
    case False
    with that other have u: "in_cs (frames s u)" by simp
    then have "lock (lim s)" by (rule L)
    with C U [OF u, of t] False show ?thesis by blast
  qed
  moreover have "u = u'" if "in_cs (frames s' u)" "in_cs (frames s' u')" for u u'
  proof (cases "u = t"; cases "u' = t")
    assume "u = t" "u' \<noteq> t"
    with that own other have "in_cs f'" "in_cs (frames s u')" by simp_all
    with B L U [of u' t] \<open>u' \<noteq> t\<close> show ?thesis by blast
  next
    assume "u \<noteq> t" "u' = t"
    with that own other have "in_cs f'" "in_cs (frames s u)" by simp_all
    with B L U [of u t] \<open>u \<noteq> t\<close> show ?thesis by blast
  next
    assume "u \<noteq> t" "u' \<noteq> t"
    with that other U [of u u'] show ?thesis by simp
  qed simp
  ultimately show ?thesis unfolding exclusive_def by blast
qed

lemma step_exclusive:
  assumes "step s a = Done s'" "exclusive s"
  shows "exclusive s'"
  using assms(1)
proof (cases rule: step_cases)
  case (Tick n)
  with assms(2) show ?thesis by (simp add: exclusive_def)
next
  case (Call t c)
  show ?thesis
    by (rule exclusive_upd [OF assms(2), where t = t and f' = "enter c"])
      (use Call exclusive_lock [OF assms(2), of t] in simp_all)
next
  case (Refused t v)
  show ?thesis
    by (rule exclusive_upd [OF assms(2), where t = t and f' = Idle])
      (use Refused exclusive_lock [OF assms(2), of t] in simp_all)
next
  case (Sent t v)
  show ?thesis
    by (rule exclusive_upd [OF assms(2), where t = t and f' = Idle])
      (use Sent exclusive_lock [OF assms(2), of t] in simp_all)
next
  case (Reclosed t)
  show ?thesis
    by (rule exclusive_upd [OF assms(2), where t = t and f' = Idle])
      (use Reclosed exclusive_lock [OF assms(2), of t] in simp_all)
next
  case (Closed t)
  show ?thesis
    by (rule exclusive_upd [OF assms(2), where t = t and f' = Idle])
      (use Closed exclusive_lock [OF assms(2), of t] in simp_all)
next
  case (Took t v vs)
  show ?thesis
    by (rule exclusive_upd [OF assms(2), where t = t and f' = "resume (frames s t) (InGate v True AtLock)"])
      (use Took exclusive_lock [OF assms(2), of t] in simp_all)
next
  case (Drained t)
  show ?thesis
    by (rule exclusive_upd [OF assms(2), where t = t and f' = Idle])
      (use Drained exclusive_lock [OF assms(2), of t] in simp_all)
next
  case (Locked t v ok)
  show ?thesis
    by (rule exclusive_upd [OF assms(2), where t = t and f' = "resume (frames s t) (InGate v ok AtSleep)"])
      (use Locked exclusive_lock [OF assms(2), of t] in simp_all)
next
  case (Passed t v ok)
  show ?thesis
    by (rule exclusive_upd [OF assms(2), where t = t and f' = "resume (frames s t) (InGate v ok AtBump)"])
      (use Passed exclusive_lock [OF assms(2), of t] in simp_all)
next
  case (Slept t v ok)
  show ?thesis
    by (rule exclusive_upd [OF assms(2), where t = t and f' = "resume (frames s t) (InGate v ok (Sleeping (nextTime (lim s))))"])
      (use Slept exclusive_lock [OF assms(2), of t] in simp_all)
next
  case (Woke t v ok w)
  show ?thesis
    by (rule exclusive_upd [OF assms(2), where t = t and f' = "resume (frames s t) (InGate v ok AtBump)"])
      (use Woke exclusive_lock [OF assms(2), of t] in simp_all)
next
  case (Bumped t v ok)
  show ?thesis
    by (rule exclusive_upd [OF assms(2), where t = t and f' = "resume (frames s t) (InGate v ok AtUnlock)"])
      (use Bumped exclusive_lock [OF assms(2), of t] in simp_all)
next
  case (Unlocked t v ok)
  show ?thesis
    by (rule exclusive_upd [OF assms(2), where t = t and f' = "resume (frames s t) (AtReturn v ok)"])
      (use Unlocked exclusive_lock [OF assms(2), of t] in simp_all)
next
  case (Returned t v ok)
  show ?thesis
    by (rule exclusive_upd [OF assms(2), where t = t and f' = Idle])
      (use Returned exclusive_lock [OF assms(2), of t] in simp_all)
next
  case (Met t u v)
  let ?s1 = "s\<lparr>frames := (frames s)(t := Idle)\<rparr>"
  have nt: "\<not> in_cs (frames s t)" and nu: "\<not> in_cs (frames s u)"
    using Met(2,3) by simp_all
  have "exclusive ?s1"
    by (rule exclusive_upd [OF assms(2), where t = t and f' = Idle]) (simp_all add: nt)
  then show ?thesis
  proof (rule exclusive_upd [where t = u and f' = "resume (frames s u) (InGate v True AtLock)"])
    show "frames s' = (frames ?s1)(u := resume (frames s u) (InGate v True AtLock))"
      by (simp add: Met(7))
    show "lock (lim s')" if "in_cs (resume (frames s u) (InGate v True AtLock))"
      using that by simp
    show "\<not> lock (lim ?s1)" if "in_cs (resume (frames s u) (InGate v True AtLock))"
      using that by simp
    show "in_cs (frames ?s1 u)" if "lock (lim ?s1)" "\<not> lock (lim s')"
      using that by (simp add: Met(7))
  qed
qed


lemma waited_upd:
  assumes wa: "waited s" and ex: "exclusive s" and fr: "frames s' = (frames s)(t := f')"
    and ck: "clock s \<le> clock s'"
    and D: "nextTime (lim s') \<noteq> nextTime (lim s) \<Longrightarrow> in_cs (frames s t)"
    and E: "gate_of f' = Some AtBump \<Longrightarrow> nextTime (lim s') \<le> clock s'"
    and F: "\<And>w. gate_of f' = Some (Sleeping w) \<Longrightarrow> nextTime (lim s') \<le> w"
  shows "waited s'"
proof -
  from fr have own: "frames s' t = f'"
    and other: "\<And>u. u \<noteq> t \<Longrightarrow> frames s' u = frames s u"
    by simp_all
  from ex have U: "\<And>u u'. in_cs (frames s u) \<Longrightarrow> in_cs (frames s u') \<Longrightarrow> u = u'"
    unfolding exclusive_def by blast
  from wa have W1: "\<And>u. gate_of (frames s u) = Some AtBump \<Longrightarrow> nextTime (lim s) \<le> clock s"
    and W2: "\<And>u w. gate_of (frames s u) = Some (Sleeping w) \<Longrightarrow> nextTime (lim s) \<le> w"
    unfolding waited_def by blast+
  have same: "nextTime (lim s') = nextTime (lim s)" if "u \<noteq> t" "in_cs (frames s u)" for u
    using that D U [of t u] by blast
  have "nextTime (lim s') \<le> clock s'" if "gate_of (frames s' u) = Some AtBump" for u
  proof (cases "u = t")
    case True with that own E show ?thesis by simp
  next
    case False
    with that other have g: "gate_of (frames s u) = Some AtBump" by simp
    with same [OF False] W1 [OF g] ck show ?thesis by simp
  qed
  moreover have "nextTime (lim s') \<le> w" if "gate_of (frames s' u) = Some (Sleeping w)" for u w
  proof (cases "u = t")
    case True with that own F show ?thesis by simp
  next
    case False
    with that other have g: "gate_of (frames s u) = Some (Sleeping w)" by simp
    with same [OF False] W2 [OF g] show ?thesis by simp
  qed
  ultimately show ?thesis unfolding waited_def by blast
qed

lemma waited_bump: "waited s \<Longrightarrow> gate_of (frames s t) = Some AtBump \<Longrightarrow> nextTime (lim s) \<le> clock s"
  unfolding waited_def by blast

lemma waited_sleeping: "waited s \<Longrightarrow> gate_of (frames s t) = Some (Sleeping w) \<Longrightarrow> nextTime (lim s) \<le> w"
  unfolding waited_def by blast

lemma step_waited:
  assumes "step s a = Done s'" "exclusive s" "waited s"
  shows "waited s'"
  using assms(1)
proof (cases rule: step_cases)
  case (Tick n)
  have "nextTime (lim s) \<le> clock s + int n" if "gate_of (frames s u) = Some AtBump" for u
    using waited_bump [OF assms(3) that] by simp
  with assms(3) Tick show ?thesis unfolding waited_def by simp
next
  case (Call t c)
  show ?thesis
    by (rule waited_upd [OF assms(3,2), where t = t and f' = "enter c"])
      (use Call in simp_all)
next
  case (Refused t v)
  show ?thesis
    by (rule waited_upd [OF assms(3,2), where t = t and f' = Idle])
      (use Refused in simp_all)
next
  case (Sent t v)
  show ?thesis
    by (rule waited_upd [OF assms(3,2), where t = t and f' = Idle])
      (use Sent in simp_all)
next
  case (Reclosed t)
  show ?thesis
    by (rule waited_upd [OF assms(3,2), where t = t and f' = Idle])
      (use Reclosed in simp_all)
next
  case (Closed t)
  show ?thesis
    by (rule waited_upd [OF assms(3,2), where t = t and f' = Idle])
      (use Closed in simp_all)
next
  case (Took t v vs)
  show ?thesis
    by (rule waited_upd [OF assms(3,2), where t = t and f' = "resume (frames s t) (InGate v True AtLock)"])
      (use Took  in simp_all)
next
  case (Drained t)
  show ?thesis
    by (rule waited_upd [OF assms(3,2), where t = t and f' = Idle])
      (use Drained in simp_all)
next
  case (Locked t v ok)
  show ?thesis
    by (rule waited_upd [OF assms(3,2), where t = t and f' = "resume (frames s t) (InGate v ok AtSleep)"])
      (use Locked  in simp_all)
next
  case (Passed t v ok)
  show ?thesis
    by (rule waited_upd [OF assms(3,2), where t = t and f' = "resume (frames s t) (InGate v ok AtBump)"])
      (use Passed  in simp_all)
next
  case (Slept t v ok)
  show ?thesis
    by (rule waited_upd [OF assms(3,2), where t = t and f' = "resume (frames s t) (InGate v ok (Sleeping (nextTime (lim s))))"])
      (use Slept  in simp_all)
next
  case (Woke t v ok w)
  show ?thesis
    by (rule waited_upd [OF assms(3,2), where t = t and f' = "resume (frames s t) (InGate v ok AtBump)"])
      (use Woke waited_sleeping [OF assms(3), of t w] in simp_all)
next
  case (Bumped t v ok)
  show ?thesis
    by (rule waited_upd [OF assms(3,2), where t = t and f' = "resume (frames s t) (InGate v ok AtUnlock)"])
      (use Bumped  in simp_all)
next
  case (Unlocked t v ok)
  show ?thesis
    by (rule waited_upd [OF assms(3,2), where t = t and f' = "resume (frames s t) (AtReturn v ok)"])
      (use Unlocked  in simp_all)
next
  case (Returned t v ok)
  show ?thesis
    by (rule waited_upd [OF assms(3,2), where t = t and f' = Idle])
      (use Returned in simp_all)
next
  case (Met t u v)
  let ?s1 = "s\<lparr>frames := (frames s)(t := Idle)\<rparr>"
  have nt: "\<not> in_cs (frames s t)" using Met(2) by simp
  have e1: "exclusive ?s1"
    by (rule exclusive_upd [OF assms(2), where t = t and f' = Idle]) (simp_all add: nt)
  have "waited ?s1"
    by (rule waited_upd [OF assms(3,2), where t = t and f' = Idle]) simp_all
  then show ?thesis using e1
  proof (rule waited_upd [where t = u and f' = "resume (frames s u) (InGate v True AtLock)"])
    show "frames s' = (frames ?s1)(u := resume (frames s u) (InGate v True AtLock))"
      by (simp add: Met(7))
  qed (simp_all add: Met(7))
qed

section \<open>Invariants of every run\<close>

lemma flag_of_simps [simp]:
  "flag_of Idle" "flag_of (InPush x) " "flag_of InClose"
  "flag_of (resume f AtRecv)"
  "flag_of (resume f (InGate v ok g)) = ok"
  "flag_of (resume f (AtReturn v ok)) = ok"
  by (simp_all)

lemma flag_of_enter [simp]: "flag_of (enter c)"
  by (cases c) simp_all

lemma flag_of_popping:
  "popping f = Some (InGate v ok g) \<Longrightarrow> flag_of f = ok"
  "popping f = Some (AtReturn v ok) \<Longrightarrow> flag_of f = ok"
  by simp_all

declare flag_of.simps [simp del]

lemma flagged_upd:
  assumes "flagged s" "frames s' = (frames s)(t := f')" "flag_of f'"
  shows "flagged s'"
  using assms unfolding flagged_def by simp

lemma flagged_at: "flagged s \<Longrightarrow> flag_of (frames s t)"
  unfolding flagged_def by blast

lemma step_flagged:
  assumes "step s a = Done s'" "flagged s"
  shows "flagged s'"
  using assms(1)
proof (cases rule: step_cases)
  case (Tick n)
  with assms(2) show ?thesis by (simp add: flagged_def)
next
  case (Met t u v)
  have "flagged (s\<lparr>frames := (frames s)(t := Idle)\<rparr>)"
    by (rule flagged_upd [OF assms(2), where t = t and f' = Idle]) simp_all
  then show ?thesis
    by (rule flagged_upd [where t = u and f' = "resume (frames s u) (InGate v True AtLock)"])
      (simp_all add: Met(7))
next
  case (Call t c)
  show ?thesis
    by (rule flagged_upd [OF assms(2), where t = t and f' = "enter c"]) (simp_all add: Call)
next
  case (Refused t v)
  show ?thesis
    by (rule flagged_upd [OF assms(2), where t = t and f' = Idle]) (simp_all add: Refused)
next
  case (Sent t v)
  show ?thesis
    by (rule flagged_upd [OF assms(2), where t = t and f' = Idle]) (simp_all add: Sent)
next
  case (Reclosed t)
  show ?thesis
    by (rule flagged_upd [OF assms(2), where t = t and f' = Idle]) (simp_all add: Reclosed)
next
  case (Closed t)
  show ?thesis
    by (rule flagged_upd [OF assms(2), where t = t and f' = Idle]) (simp_all add: Closed)
next
  case (Drained t)
  show ?thesis
    by (rule flagged_upd [OF assms(2), where t = t and f' = Idle]) (simp_all add: Drained)
next
  case (Returned t v ok)
  show ?thesis
    by (rule flagged_upd [OF assms(2), where t = t and f' = Idle]) (simp_all add: Returned)
next
  case (Took t v vs)
  show ?thesis
    by (rule flagged_upd [OF assms(2), where t = t and f' = "resume (frames s t) (InGate v True AtLock)"])
      (simp_all add: Took)
next
  case (Locked t v ok)
  with flagged_at [OF assms(2), of t] have "ok" by (simp add: flag_of_popping)
  then show ?thesis
    by - (rule flagged_upd [OF assms(2), where t = t and f' = "resume (frames s t) (InGate v ok AtSleep)"],
      simp_all add: Locked)
next
  case (Passed t v ok)
  with flagged_at [OF assms(2), of t] have "ok" by (simp add: flag_of_popping)
  then show ?thesis
    by - (rule flagged_upd [OF assms(2), where t = t and f' = "resume (frames s t) (InGate v ok AtBump)"],
      simp_all add: Passed)
next
  case (Slept t v ok)
  with flagged_at [OF assms(2), of t] have "ok" by (simp add: flag_of_popping)
  then show ?thesis
    by - (rule flagged_upd [OF assms(2), where t = t
          and f' = "resume (frames s t) (InGate v ok (Sleeping (nextTime (lim s))))"],
      simp_all add: Slept)
next
  case (Woke t v ok w)
  with flagged_at [OF assms(2), of t] have "ok" by (simp add: flag_of_popping)
  then show ?thesis
    by - (rule flagged_upd [OF assms(2), where t = t and f' = "resume (frames s t) (InGate v ok AtBump)"],
      simp_all add: Woke)
next
  case (Bumped t v ok)
  with flagged_at [OF assms(2), of t] have "ok" by (simp add: flag_of_popping)
  then show ?thesis
    by - (rule flagged_upd [OF assms(2), where t = t and f' = "resume (frames s t) (InGate v ok AtUnlock)"],
      simp_all add: Bumped)
next
  case (Unlocked t v ok)
  with flagged_at [OF assms(2), of t] have "ok" by (simp add: flag_of_popping)
  then show ?thesis
    by - (rule flagged_upd [OF assms(2), where t = t and f' = "resume (frames s t) (AtReturn v ok)"],
      simp_all add: Unlocked)
qed

lemma step_safe: "step s a = Done s' \<Longrightarrow> safe s \<Longrightarrow> safe s'"
  unfolding safe_def
  by (blast intro: step_bounded step_exclusive step_waited step_flagged)

lemma gate_no_panic: "waitAndBumpNextTime now g l = Panics \<Longrightarrow> g = AtUnlock \<and> \<not> lock l"
  by (cases g) (simp_all add: Let_def split: if_splits)

lemma PopOk_no_panic:
  "PopOk now p l = Panics \<Longrightarrow> \<exists>v ok. p = InGate v ok AtUnlock \<and> \<not> lock l"
  by (cases p)
    (auto simp: chanrecv_def dest: gate_no_panic split: outcome.splits list.splits if_splits prod.splits progress.splits)

lemma step_no_panic:
  assumes "exclusive s"
  shows "step s a \<noteq> Panics"
proof
  assume P: "step s a = Panics"
  show False
  proof (cases a)
    case (Tick n) with P show ?thesis by simp
  next
    case (Call t c) with P show ?thesis by (simp split: if_splits)
  next
    case (Sync t u) with P show ?thesis by (simp add: meet_def split: frame.splits if_splits)
  next
    case (Run t)
    show ?thesis
    proof (cases "frames s t")
      case Idle with P Run show ?thesis by simp
    next
      case (InPush v) with P Run show ?thesis
        by (auto simp: Push_def split: outcome.splits)
    next
      case InClose with P Run show ?thesis
        by (auto simp: Close_def split: outcome.splits)
    next
      case (InPopOk p)
      with P Run have "PopOk (clock s) p (lim s) = Panics"
        by (simp split: outcome.splits progress.splits prod.splits)
      from PopOk_no_panic [OF this] InPopOk exclusive_lock [OF assms, of t]
      show ?thesis by auto
    next
      case (InPop p)
      with P Run have "PopOk (clock s) p (lim s) = Panics"
        by (simp add: Pop_def split: outcome.splits progress.splits prod.splits)
      from PopOk_no_panic [OF this] InPop exclusive_lock [OF assms, of t]
      show ?thesis by auto
    qed
  qed
qed

lemma run_append:
  "run s (as @ bs) = (case run s as of Blocks \<Rightarrow> Blocks | Panics \<Rightarrow> Panics | Done s' \<Rightarrow> run s' bs)"
  by (induction as arbitrary: s) (simp_all split: outcome.splits)

lemma run_invariant:
  assumes "run s as = Done s'" and "P s"
    and "\<And>s a s'. P s \<Longrightarrow> step s a = Done s' \<Longrightarrow> P s'"
  shows "P s'"
  using assms(1,2)
proof (induction as arbitrary: s)
  case Nil then show ?case by simp
next
  case (Cons a as)
  from Cons.prems(1) obtain s1 where 1: "step s a = Done s1" and 2: "run s1 as = Done s'"
    by (auto split: outcome.splits)
  from assms(3) [OF Cons.prems(2) 1] have "P s1" .
  from Cons.IH [OF 2 this] show ?case .
qed

lemma run_safe: "run s as = Done s' \<Longrightarrow> safe s \<Longrightarrow> safe s'"
  by (erule run_invariant) (auto intro: step_safe)

lemma run_cap: "run s as = Done s' \<Longrightarrow> cap (values (lim s')) = cap (values (lim s))"
  by (induction as arbitrary: s) (auto split: outcome.splits dest: step_cap)

lemma run_d: "run s as = Done s' \<Longrightarrow> d (lim s') = d (lim s)"
  by (induction as arbitrary: s) (auto split: outcome.splits dest: step_d)

lemma run_no_panic: "safe s \<Longrightarrow> run s as \<noteq> Panics"
proof (induction as arbitrary: s)
  case Nil then show ?case by simp
next
  case (Cons a as)
  then show ?case
    using step_no_panic [of s a] step_safe [of s a]
    by (auto simp: safe_def split: outcome.splits)
qed

lemma NewCapacity_Done:
  "NewCapacity t0 dur c = Done l \<longleftrightarrow>
     0 \<le> c \<and> l = \<lparr>lock = False, nextTime = t0, d = dur,
       values = \<lparr>buf = [], cap = nat c, closed = False\<rparr>\<rparr>"
  by (auto simp: NewCapacity_def make_chan_def)

lemma boot_simps [simp]:
  "lim (boot l t0) = l" "clock (boot l t0) = t0" "frames (boot l t0) t = Idle" "hist (boot l t0) = []"
  by (simp_all add: boot_def)

lemma boot_safe: "NewCapacity t0 dur c = Done l \<Longrightarrow> safe (boot l t0')"
  by (simp add: NewCapacity_Done safe_def bounded_def exclusive_def waited_def flagged_def)

section \<open>Order of the values and the one-way closing\<close>

lemma pushed_simps [simp]:
  "pushed [] = []" "pushed (e # h) = pushed_of e @ pushed h" "pushed (h @ h') = pushed h @ pushed h'"
  by (simp_all add: pushed_def)

lemma taken_simps [simp]:
  "taken [] = []" "taken (e # h) = taken_of e @ taken h" "taken (h @ h') = taken h @ taken h'"
  by (simp_all add: taken_def)

lemma popped_simps [simp]:
  "popped [] = []" "popped (e # h) = popped_of e @ popped h" "popped (h @ h') = popped h @ popped h'"
  by (simp_all add: popped_def)

lemma results_simps [simp]:
  "results [] = []" "results (e # h) = result_of e @ results h"
  "results (h @ h') = results h @ results h'"
  by (simp_all add: results_def)

lemma goods_simps [simp]:
  "goods [] = []" "goods (e # h) = good_of e @ goods h" "goods (h @ h') = goods h @ goods h'"
  by (simp_all add: goods_def)

lemma bads_simps [simp]:
  "bads [] = 0" "bads (e # h) = length (bad_of e) + bads h" "bads (h @ h') = bads h + bads h'"
  by (simp_all add: bads_def)

lemma releases_simps [simp]:
  "releases [] = []" "releases (e # h) = release_of e @ releases h"
  "releases (h @ h') = releases h @ releases h'"
  by (simp_all add: releases_def)

lemma bumps_simps [simp]:
  "bumps [] = []" "bumps (e # h) = bump_of e @ bumps h" "bumps (h @ h') = bumps h @ bumps h'"
  by (simp_all add: bumps_def)

lemma closes_simps [simp]:
  "closes [] = []" "closes (e # h) = close_of e @ closes h" "closes (h @ h') = closes h @ closes h'"
  by (simp_all add: closes_def)

lemma pop_ret_simps [simp]:
  "pushed_of (pop_ret f t v ok n) = []"
  "taken_of (pop_ret f t v ok n) = []"
  "bump_of (pop_ret f t v ok n) = []"
  "close_of (pop_ret f t v ok n) = []"
  "popped_of (pop_ret f t v ok n) = [v]"
  by (cases f; simp)+

lemma step_fifo:
  assumes "step s a = Done s'" "bounded s"
    and "pushed (hist s) = taken (hist s) @ buf (values (lim s))"
  shows "pushed (hist s') = taken (hist s') @ buf (values (lim s'))"
  using assms(1)
proof (cases rule: step_cases)
  case (Met t u v)
  with assms(2) have "buf (values (lim s)) = []" by (simp add: bounded_def)
  with Met assms(3) show ?thesis by simp
qed (use assms(3) in simp_all)

lemma run_fifo: "run s as = Done s' \<Longrightarrow> fifo s \<Longrightarrow> fifo s'"
  unfolding fifo_def
  by (erule run_invariant) (auto intro: step_fifo step_bounded)

lemma boot_fifo: "NewCapacity t0 dur c = Done l \<Longrightarrow> fifo (boot l t0')"
  by (simp add: NewCapacity_Done fifo_def bounded_def)

lemma one_shot_snoc: "es \<noteq> [] \<Longrightarrow> one_shot es \<Longrightarrow> one_shot (es @ [Some ErrClosed])"
proof (cases es)
  case Nil then show "es \<noteq> [] \<Longrightarrow> ?thesis" by simp
next
  case (Cons e es')
  assume "one_shot es"
  with Cons have e: "e = None" and r: "es' = replicate (length es') (Some ErrClosed)" by simp_all
  have "es' @ [Some ErrClosed] = replicate (Suc (length es')) (Some ErrClosed)"
    by (subst r) (simp add: replicate_append_same)
  with Cons e show ?thesis by simp
qed

lemma step_shut:
  assumes "step s a = Done s'" "shut s"
  shows "shut s'"
  using assms(1)
proof (cases rule: step_cases)
  case (Reclosed t)
  with assms(2) show ?thesis by (simp add: shut_def one_shot_snoc)
qed (use assms(2) in \<open>simp_all add: shut_def\<close>)

lemma step_closed: "step s a = Done s' \<Longrightarrow> closed (values (lim s)) \<Longrightarrow> closed (values (lim s'))"
  by (erule step_cases; simp)

lemma run_shut: "run s as = Done s' \<Longrightarrow> shut s \<Longrightarrow> shut s'"
  by (erule run_invariant) (auto intro: step_shut)

lemma run_closed: "run s as = Done s' \<Longrightarrow> closed (values (lim s)) \<Longrightarrow> closed (values (lim s'))"
  by (erule run_invariant) (auto intro: step_closed)

lemma boot_shut: "NewCapacity t0 dur c = Done l \<Longrightarrow> shut (boot l t0')"
  by (simp add: NewCapacity_Done shut_def)

lemma close_of_mem: "CloseRet u e \<in> set h \<Longrightarrow> closes h \<noteq> []"
  by (induction h) auto

section \<open>The claims\<close>

lemma demo_made: "NewCapacity 0 10 2 = Done demo"
  by (simp add: NewCapacity_Done demo_def)

text \<open>
  C7. A Limiter made with capacity \<open>c \<ge> 1\<close> never holds more than \<open>c\<close> values, whatever
  the goroutines do; and a \<^verbatim>\<open>Push\<close> cannot complete exactly while the buffer holds
  \<open>c\<close> values and the Limiter is not closed (with \<open>c \<ge> 1\<close> there is no rendezvous
  either), so it completes only once a value has been taken or the Limiter closed.
\<close>

theorem capacity_backpressure:
  assumes "1 \<le> c" and "NewCapacity t0 dur c = Done l" and "run (boot l t0) as = Done s"
  shows "length (buf (values (lim s))) \<le> nat c \<and>
    (\<forall>t v. frames s t = InPush v \<longrightarrow>
       (step s (Run t) = Blocks \<longleftrightarrow>
          length (buf (values (lim s))) = nat c \<and> \<not> closed (values (lim s))) \<and>
       (\<forall>u. step s (Sync t u) = Blocks))"
proof -
  from assms(2) have "safe (boot l t0)" by (rule boot_safe)
  with assms(3) have "safe s" by (rule run_safe)
  then have b: "length (buf (values (lim s))) \<le> cap (values (lim s))"
    by (simp add: safe_def bounded_def)
  from run_cap [OF assms(3)] assms(2) have c: "cap (values (lim s)) = nat c"
    by (simp add: NewCapacity_Done)
  from assms(1) c have "cap (values (lim s)) \<noteq> 0" by simp
  with b c show ?thesis
    by (auto simp: Push_def chansend_def meet_def chansync_def)
qed

theorem capacity_backpressure_witness:
  "(1::int) \<le> 2 \<and> NewCapacity 0 10 2 = Done demo \<and>
   (\<exists>s. run (boot demo 0)
          [Call 0 (CallPush (Val 1)), Run 0, Call 0 (CallPush (Val 2)), Run 0,
           Call 0 (CallPush (Val 3))] = Done s \<and>
        length (buf (values (lim s))) = 2 \<and> frames s 0 = InPush (Val 3) \<and>
        step s (Run 0) = Blocks)"
proof -
  obtain s where r: "run (boot demo 0)
          [Call 0 (CallPush (Val 1)), Run 0, Call 0 (CallPush (Val 2)), Run 0,
           Call 0 (CallPush (Val 3))] = Done s"
    and f: "frames s 0 = InPush (Val 3)" and n: "length (buf (values (lim s))) = 2"
    and o: "\<not> closed (values (lim s))"
    by (simp add: demo_def Push_def chansend_def)
  from capacity_backpressure [OF _ demo_made r] f n o have "step s (Run 0) = Blocks"
    by simp
  with r f n demo_made show ?thesis by simp
qed

text \<open>
  C5. Once a call of \<^verbatim>\<open>Close\<close> has returned \<^verbatim>\<open>nil\<close>, a \<^verbatim>\<open>Push\<close> is never blocked:
  its step returns \<^verbatim>\<open>ErrClosed\<close> and changes nothing of the Limiter, so the buffer
  keeps its contents and the value is not stored.
\<close>

theorem closed_rejects_push:
  assumes "NewCapacity t0 dur c = Done l" and "run (boot l t0) as = Done s"
    and "CloseRet u None \<in> set (hist s)" and "frames s t = InPush x"
  shows "step s (Run t) =
    Done (s\<lparr>frames := (frames s)(t := Idle),
             hist := hist s @ [PushRet t x (Some ErrClosed)]\<rparr>)"
proof -
  from assms(1) have "shut (boot l t0)" by (rule boot_shut)
  with assms(2) have "shut s" by (rule run_shut)
  moreover from assms(3) have "closes (hist s) \<noteq> []" by (rule close_of_mem)
  ultimately have "closed (values (lim s))" by (simp add: shut_def split: if_splits)
  with assms(4) show ?thesis
    by (simp add: Push_def chansend_def finish_def)
qed

theorem closed_rejects_push_witness:
  "NewCapacity 0 10 2 = Done demo \<and>
   (\<exists>s. run (boot demo 0)
          [Call 0 (CallPush (Val 1)), Run 0, Call 1 CallClose, Run 1,
           Call 0 (CallPush (Val 2))] = Done s \<and>
        CloseRet 1 None \<in> set (hist s) \<and> frames s 0 = InPush (Val 2) \<and>
        buf (values (lim s)) = [Val 1] \<and>
        step s (Run 0) =
          Done (s\<lparr>frames := (frames s)(0 := Idle),
                   hist := hist s @ [PushRet 0 (Val 2) (Some ErrClosed)]\<rparr>))"
proof -
  obtain s where r: "run (boot demo 0)
          [Call 0 (CallPush (Val 1)), Run 0, Call 1 CallClose, Run 1,
           Call 0 (CallPush (Val 2))] = Done s"
    and f: "frames s 0 = InPush (Val 2)" and h: "CloseRet 1 None \<in> set (hist s)"
    and b: "buf (values (lim s)) = [Val 1]"
    by (simp add: demo_def Push_def chansend_def Close_def closechan_def)
  from closed_rejects_push [OF demo_made r h f] r f h b demo_made show ?thesis
    by blast
qed

text \<open>
  C6. The results of the calls of \<^verbatim>\<open>Close\<close>, in the order they return, are \<^verbatim>\<open>nil\<close>
  once and \<^verbatim>\<open>ErrClosed\<close> ever after; the Limiter is closed exactly when a call has
  returned; and whatever happens later, a closed Limiter stays closed.
\<close>

theorem close_one_shot:
  assumes "NewCapacity t0 dur c = Done l" and "run (boot l t0) as = Done s"
    and "run s bs = Done s'"
  shows "one_shot (closes (hist s)) \<and>
    (closed (values (lim s)) \<longleftrightarrow> closes (hist s) \<noteq> []) \<and>
    (closed (values (lim s)) \<longrightarrow> closed (values (lim s')))"
proof -
  from assms(1) have "shut (boot l t0)" by (rule boot_shut)
  with assms(2) have "shut s" by (rule run_shut)
  then have "one_shot (closes (hist s))" "closed (values (lim s)) \<longleftrightarrow> closes (hist s) \<noteq> []"
    by (simp_all add: shut_def split: if_splits)
  with run_closed [OF assms(3)] show ?thesis by blast
qed

theorem close_one_shot_witness:
  "NewCapacity 0 10 2 = Done demo \<and>
   (\<exists>s s'. run (boot demo 0)
          [Call 0 CallClose, Run 0, Call 1 CallClose, Run 1, Call 0 CallClose, Run 0] = Done s \<and>
        run s [Call 2 (CallPush (Val 1)), Run 2, Call 2 CallPopOk, Run 2, Tick 3] = Done s' \<and>
        closes (hist s) = [None, Some ErrClosed, Some ErrClosed] \<and>
        one_shot (closes (hist s)) \<and> closed (values (lim s)) \<and> closed (values (lim s')))"
proof -
  obtain s where r: "run (boot demo 0)
          [Call 0 CallClose, Run 0, Call 1 CallClose, Run 1, Call 0 CallClose, Run 0] = Done s"
    and c: "closes (hist s) = [None, Some ErrClosed, Some ErrClosed]"
    and f: "frames s 2 = Idle" and l: "lim s = demo\<lparr>values := (values demo)\<lparr>closed := True\<rparr>\<rparr>"
    by (simp add: demo_def Close_def closechan_def)
  obtain s' where r': "run s [Call 2 (CallPush (Val 1)), Run 2, Call 2 CallPopOk, Run 2, Tick 3] = Done s'"
    using f l by (simp add: demo_def Push_def chansend_def chanrecv_def)
  from close_one_shot [OF demo_made r r'] c r r' demo_made show ?thesis
    by auto
qed




lemma step_nextTime:
  assumes "step s a = Done s'" "waited s" "0 \<le> d (lim s)"
  shows "nextTime (lim s) \<le> nextTime (lim s')"
  using assms(1)
proof (cases rule: step_cases)
  case (Bumped t v ok)
  with waited_bump [OF assms(2), of t] assms(3) show ?thesis by simp
qed simp_all

lemma run_nextTime:
  "run s as = Done s' \<Longrightarrow> safe s \<Longrightarrow> 0 \<le> d (lim s) \<Longrightarrow> nextTime (lim s) \<le> nextTime (lim s')"
proof (induction as arbitrary: s)
  case Nil then show ?case by simp
next
  case (Cons a as)
  from Cons.prems(1) obtain s1 where 1: "step s a = Done s1" and 2: "run s1 as = Done s'"
    by (auto split: outcome.splits)
  from Cons.prems(2) have w: "waited s" by (simp add: safe_def)
  from step_nextTime [OF 1 w Cons.prems(3)] have "nextTime (lim s) \<le> nextTime (lim s1)" .
  moreover from step_safe [OF 1 Cons.prems(2)] step_d [OF 1] Cons.prems(3) Cons.IH [OF 2]
  have "nextTime (lim s1) \<le> nextTime (lim s')" by simp
  ultimately show ?case by simp
qed




text \<open>
  C8, as stated, fails: the interval is a \<^verbatim>\<open>time.Duration\<close>, which may be negative, and
  nothing checks it. With an interval of \<open>-5\<close> the first pop moves \<^verbatim>\<open>nextTime\<close> from
  0 back to \<open>-5\<close>.
\<close>

theorem watermark_monotone_counterexample:
  "NewCapacity 0 (- 5) 1 = Done demo_neg \<and>
   seen (\<lambda>s. nextTime (lim s)) (run (boot demo_neg 0) []) = Some 0 \<and>
   seen (\<lambda>s. nextTime (lim s)) (run (boot demo_neg 0) one_bump) = Some (- 5)"
  by (simp add: NewCapacity_Done demo_neg_def seen_def one_bump_def Push_def chansend_def
      chanrecv_def)

text \<open>
  C8, amended: when the interval is not negative, \<^verbatim>\<open>nextTime\<close> never decreases, from
  any state of any run to any later one; and the statement that sets it, whenever it
  runs, sets it to the reading of the clock plus the interval, which is not earlier
  than its value before.
\<close>

theorem watermark_monotone:
  assumes "0 \<le> dur" and "NewCapacity t0 dur c = Done l" and "run (boot l t0) as = Done s"
    and "run s bs = Done s'"
  shows "nextTime (lim s) \<le> nextTime (lim s') \<and>
    (\<forall>t. gate_of (frames s t) = Some AtBump \<longrightarrow>
       (\<exists>s1. step s (Run t) = Done s1 \<and> nextTime (lim s1) = clock s + dur \<and>
          nextTime (lim s) \<le> nextTime (lim s1)))"
proof -
  from assms(2) have "safe (boot l t0)" by (rule boot_safe)
  with assms(3) have s: "safe s" by (rule run_safe)
  from run_d [OF assms(3)] assms(2) have d: "d (lim s) = dur"
    by (simp add: NewCapacity_Done)
  from run_nextTime [OF assms(4) s] d assms(1)
  have 1: "nextTime (lim s) \<le> nextTime (lim s')" by simp
  have 2: "\<exists>s1. step s (Run t) = Done s1 \<and> nextTime (lim s1) = clock s + dur \<and>
          nextTime (lim s) \<le> nextTime (lim s1)" if g: "gate_of (frames s t) = Some AtBump" for t
  proof -
    from s have w: "waited s" by (simp add: safe_def)
    from g obtain v ok where p: "popping (frames s t) = Some (InGate v ok AtBump)"
      by (auto simp: gate_of.simps split: option.splits popok_pc.splits)
    then have "step s (Run t) = Done (advance s t ((lim s)\<lparr>nextTime := clock s + d (lim s)\<rparr>)
        (InGate v ok AtUnlock))"
      by (cases "frames s t") (simp_all add: Pop_def)
    with waited_bump [OF w g] d assms(1) show ?thesis by simp
  qed
  from 1 2 show ?thesis by blast
qed

theorem watermark_monotone_witness:
  "(0::int) \<le> 10 \<and> NewCapacity 0 10 1 = Done demo1 \<and>
   (\<exists>s s'. run (boot demo1 0) [Call 0 (CallPush (Val 1)), Run 0, Call 1 CallPopOk, Run 1, Run 1, Tick 3, Run 1]
        = Done s \<and>
      run s [Run 1, Run 1] = Done s' \<and> gate_of (frames s 1) = Some AtBump \<and>
      nextTime (lim s) = 0 \<and> nextTime (lim s') = 13 \<and> clock s = 3 \<and>
      nextTime (lim s) \<le> nextTime (lim s'))"
proof -
  have m: "NewCapacity 0 10 1 = Done demo1"
    by (simp add: NewCapacity_Done demo1_def)
  obtain s where r: "run (boot demo1 0)
        [Call 0 (CallPush (Val 1)), Run 0, Call 1 CallPopOk, Run 1, Run 1, Tick 3, Run 1] = Done s"
    and f: "frames s 1 = InPopOk (InGate (Val 1) True AtBump)"
    and l: "lim s = demo1\<lparr>lock := True\<rparr>" and c: "clock s = 3"
    by (simp add: demo1_def Push_def chansend_def chanrecv_def)
  obtain s' where r': "run s [Run 1, Run 1] = Done s'" and n: "nextTime (lim s') = 13"
    using f l c by (simp add: demo1_def)
  from f have g: "gate_of (frames s 1) = Some AtBump" by simp
  from watermark_monotone [OF _ m r r'] have "nextTime (lim s) \<le> nextTime (lim s')" by simp
  with m r r' g n c l show ?thesis by (auto simp: demo1_def)
qed




lemma inflight_resume [simp]:
  "inflight (resume f AtRecv) = []"
  "inflight (resume f (InGate v ok g)) = [v]"
  "inflight (resume f (AtReturn v ok)) = [v]"
  by (cases f; simp)+

lemma inflight_enter [simp]: "inflight (enter c) = []"
  by (cases c) simp_all

lemma inflight_frame [simp]:
  "inflight Idle = []" "inflight (InPush x) = []" "inflight InClose = []"
  by simp_all

lemma inflight_popping:
  "popping f = Some AtRecv \<Longrightarrow> inflight f = []"
  "popping f = Some (InGate v ok g) \<Longrightarrow> inflight f = [v]"
  "popping f = Some (AtReturn v ok) \<Longrightarrow> inflight f = [v]"
  by simp_all

declare inflight.simps [simp del]

lemma step_frame_origin:
  assumes "step s a = Done s'"
  shows "frames s' u = frames s u \<or> frames s' u = Idle \<or>
    (\<exists>c. a = Call u c \<and> frames s' u = enter c) \<or>
    (\<exists>p p'. popping (frames s u) = Some p \<and> frames s' u = resume (frames s u) p')"
  using assms by (cases rule: step_cases) (simp_all, blast+)

lemma popping_enter: "popping (enter c) = Some p \<Longrightarrow> c = CallPop \<or> c = CallPopOk"
  by (cases c) simp_all

lemma step_lone:
  assumes "step s a = Done s'" "pops_by c a" "lone c s"
  shows "lone c s'"
  unfolding lone_def
proof (intro allI impI)
  fix u assume u: "u \<noteq> c"
  with assms(3) have n: "popping (frames s u) = None" by (simp add: lone_def)
  from step_frame_origin [OF assms(1), of u] show "popping (frames s' u) = None"
  proof (elim disjE exE conjE)
    fix call assume "a = Call u call" "frames s' u = enter call"
    with assms(2) u show ?thesis by (cases call) simp_all
  qed (use n in simp_all)
qed

lemma lone_at: "lone c s \<Longrightarrow> popping (frames s t) = Some p \<Longrightarrow> t = c"
  unfolding lone_def by (metis option.distinct(1))

lemma resume_InPop: "resume f p' = InPop q \<Longrightarrow> \<exists>p. f = InPop p"
  by (cases f) simp_all

lemma step_unPop:
  assumes "step s a = Done s'" "no_Pop a" "unPop s"
  shows "unPop s'"
  unfolding unPop_def
proof (intro allI)
  fix u q
  from assms(3) have n: "\<And>p. frames s u \<noteq> InPop p" by (simp add: unPop_def)
  from step_frame_origin [OF assms(1), of u] show "frames s' u \<noteq> InPop q"
  proof (elim disjE exE conjE)
    fix call assume "a = Call u call" "frames s' u = enter call"
    with assms(2) show ?thesis by (cases call) simp_all
  next
    fix p p' assume "frames s' u = resume (frames s u) p'"
    with n resume_InPop [of "frames s u" p' q] show ?thesis by auto
  qed (use n in simp_all)
qed

lemma resume_InClose: "resume f p' \<noteq> InClose"
  by (cases f) simp_all

lemma step_closing:
  assumes "step s a = Done s'" "\<forall>t. frames s t \<noteq> InClose"
  shows "closed (values (lim s')) = closed (values (lim s))"
  using assms(1) by (cases rule: step_cases) (use assms(2) in simp_all)

lemma step_unclosing:
  assumes "step s a = Done s'" "no_Close a" "unclosing s"
  shows "unclosing s'"
proof -
  from assms(3) have n: "\<forall>t. frames s t \<noteq> InClose" and o: "\<not> closed (values (lim s))"
    by (simp_all add: unclosing_def)
  have "frames s' u \<noteq> InClose" for u
    using step_frame_origin [OF assms(1), of u]
  proof (elim disjE exE conjE)
    fix call assume "a = Call u call" "frames s' u = enter call"
    with assms(2) show ?thesis by (cases call) simp_all
  qed (use n in \<open>simp_all add: resume_InClose\<close>)
  with step_closing [OF assms(1) n] o show ?thesis by (simp add: unclosing_def)
qed

lemma step_served:
  assumes st: "step s a = Done s'" and lo: "lone c s" and un: "unclosing s"
    and inv: "popped (hist s) @ inflight (frames s c) = taken (hist s)"
  shows "popped (hist s') @ inflight (frames s' c) = taken (hist s')"
  using st
proof (cases rule: step_cases)
  case (Tick n) with inv show ?thesis by simp
next
  case (Call t call) with inv show ?thesis by (cases "t = c") simp_all
next
  case (Refused t v) with un show ?thesis by (simp add: unclosing_def)
next
  case (Sent t v) with inv show ?thesis by (cases "t = c") simp_all
next
  case (Reclosed t) with un show ?thesis by (simp add: unclosing_def)
next
  case (Closed t) with un show ?thesis by (simp add: unclosing_def)
next
  case (Took t v vs)
  with lone_at [OF lo, of t] have "t = c" by simp
  with Took inv show ?thesis by (simp add: inflight_popping)
next
  case (Drained t) with un show ?thesis by (simp add: unclosing_def)
next
  case (Locked t v ok)
  with lone_at [OF lo, of t] have "t = c" by simp
  with Locked inv show ?thesis by (simp add: inflight_popping)
next
  case (Passed t v ok)
  with lone_at [OF lo, of t] have "t = c" by simp
  with Passed inv show ?thesis by (simp add: inflight_popping)
next
  case (Slept t v ok)
  with lone_at [OF lo, of t] have "t = c" by simp
  with Slept inv show ?thesis by (simp add: inflight_popping)
next
  case (Woke t v ok w)
  with lone_at [OF lo, of t] have "t = c" by simp
  with Woke inv show ?thesis by (simp add: inflight_popping)
next
  case (Bumped t v ok)
  with lone_at [OF lo, of t] have "t = c" by simp
  with Bumped inv show ?thesis by (simp add: inflight_popping)
next
  case (Unlocked t v ok)
  with lone_at [OF lo, of t] have "t = c" by simp
  with Unlocked inv show ?thesis by (simp add: inflight_popping)
next
  case (Returned t v ok)
  with lone_at [OF lo, of t] have "t = c" by simp
  with Returned inv show ?thesis by (simp add: inflight_popping)
next
  case (Met t u v)
  with lone_at [OF lo, of u] have "u = c" by simp
  with Met inv show ?thesis by (simp add: inflight_popping)
qed

lemma run_invariant_on:
  assumes "run s as = Done s'" and "P s" and "list_all Q as"
    and "\<And>s a s'. P s \<Longrightarrow> Q a \<Longrightarrow> step s a = Done s' \<Longrightarrow> P s'"
  shows "P s'"
  using assms(1,2,3)
proof (induction as arbitrary: s)
  case Nil then show ?case by simp
next
  case (Cons a as)
  from Cons.prems(1) obtain s1 where 1: "step s a = Done s1" and 2: "run s1 as = Done s'"
    by (auto split: outcome.splits)
  from Cons.prems(3) have q: "Q a" "list_all Q as" by simp_all
  from assms(4) [OF Cons.prems(2) q(1) 1] have "P s1" .
  from Cons.IH [OF 2 this q(2)] show ?case .
qed

lemma list_all_conj: "list_all P xs \<Longrightarrow> list_all Q xs \<Longrightarrow> list_all (\<lambda>x. P x \<and> Q x) xs"
  by (induction xs) simp_all

lemma run_served:
  assumes "run s as = Done s'" "served c s" "list_all (pops_by c) as" "list_all no_Close as"
  shows "served c s'"
proof -
  from assms(3,4) have "list_all (\<lambda>a. pops_by c a \<and> no_Close a) as" by (rule list_all_conj)
  with assms(1,2) show ?thesis
  proof (rule run_invariant_on)
    fix s a s' assume "served c (s :: 'a sys)" "pops_by c a \<and> no_Close a" "step s a = Done s'"
    then show "served c s'"
      unfolding served_def by (blast intro: step_lone step_unclosing step_served)
  qed
qed

lemma boot_served: "NewCapacity t0 dur c = Done l \<Longrightarrow> served k (boot l t0')"
  by (simp add: NewCapacity_Done served_def lone_def unclosing_def)

text \<open>
  C1. One goroutine pops, with \<^verbatim>\<open>Pop\<close> or \<^verbatim>\<open>PopOk\<close>, call after call; any number push;
  nobody closes. Then, at every moment of every run, the values pushed so far, in the
  order pushed, are the values popped so far, in the order popped, followed by the value
  the popping goroutine holds (if it is between its receive and its return) and by the
  buffer. So the \<open>i\<close>-th pop returns the \<open>i\<close>-th value pushed, and \<open>N\<close> pops after \<open>N\<close> pushes
  return exactly the values pushed, in order.
\<close>

theorem fifo_order:
  assumes "NewCapacity t0 dur c = Done l" and "run (boot l t0) as = Done s"
    and "list_all (pops_by k) as" and "list_all no_Close as"
  shows "pushed (hist s) = popped (hist s) @ inflight (frames s k) @ buf (values (lim s)) \<and>
    popped (hist s) = take (length (popped (hist s))) (pushed (hist s)) \<and>
    (length (popped (hist s)) = length (pushed (hist s)) \<longrightarrow> popped (hist s) = pushed (hist s))"
proof -
  from assms(1) have "fifo (boot l t0)" "served k (boot l t0)"
    by (rule boot_fifo, rule boot_served)
  with assms(2,3,4) have "fifo s" "served k s"
    by (blast intro: run_fifo, blast intro: run_served)
  then have "pushed (hist s) = popped (hist s) @ inflight (frames s k) @ buf (values (lim s))"
    by (simp add: fifo_def served_def)
  then show ?thesis by (metis append_eq_conv_conj append.right_neutral length_append add_left_cancel length_0_conv take_all order_refl)
qed

theorem fifo_order_witness:
  "NewCapacity 0 10 2 = Done demo \<and>
   list_all (pops_by 1) three_pushes \<and> list_all no_Close three_pushes \<and>
   (\<exists>s. run (boot demo 0) three_pushes = Done s \<and>
      pushed (hist s) = [Val 1, Val 2, Val 3] \<and> popped (hist s) = [Val 1] \<and>
      inflight (frames s 1) = [Val 2] \<and> buf (values (lim s)) = [Val 3] \<and>
      popped (hist s) = take (length (popped (hist s))) (pushed (hist s)))"
proof -
  have q: "list_all (pops_by 1) three_pushes" "list_all no_Close three_pushes"
    by (simp_all add: three_pushes_def)
  obtain s where r: "run (boot demo 0) three_pushes = Done s"
    and o: "pushed (hist s) = [Val 1, Val 2, Val 3]" "popped (hist s) = [Val 1]"
      "inflight (frames s 1) = [Val 2]" "buf (values (lim s)) = [Val 3]"
    by (simp add: demo_def three_pushes_def Push_def chansend_def chanrecv_def Pop_def inflight.simps)
  from fifo_order [OF demo_made r q] o r q demo_made show ?thesis by auto
qed

lemma pop_ret_PopOk: "unPop s \<Longrightarrow> pop_ret (frames s t) t v ok n = PopOkRet t v ok n"
  by (cases "frames s t") (simp_all add: unPop_def)

lemma step_ended:
  assumes st: "step s a = Done s'" and lo: "lone c s" and up: "unPop s" and fl: "flagged s"
    and inv: "ended c s"
  shows "ended c s'"
  using st
proof (cases rule: step_cases)
  case (Tick n) with inv show ?thesis by (simp add: ended_def)
next
  case (Call t call) with inv show ?thesis by (cases "t = c") (simp_all add: ended_def)
next
  case (Refused t v) with inv show ?thesis by (cases "t = c") (simp_all add: ended_def)
next
  case (Sent t v) with inv show ?thesis by (cases "t = c") (simp_all add: ended_def)
next
  case (Reclosed t) with inv show ?thesis by (cases "t = c") (simp_all add: ended_def)
next
  case (Closed t) with inv show ?thesis by (cases "t = c") (auto simp: ended_def)
next
  case (Took t v vs)
  with lone_at [OF lo, of t] have "t = c" by simp
  with Took inv show ?thesis by (auto simp: ended_def inflight_popping)
next
  case (Drained t)
  with lone_at [OF lo, of t] have "t = c" by simp
  with Drained inv show ?thesis
    by (auto simp: ended_def inflight_popping pop_ret_PopOk [OF up] replicate_append_same)
next
  case (Locked t v ok)
  with lone_at [OF lo, of t] have "t = c" by simp
  with Locked inv show ?thesis by (simp add: ended_def inflight_popping)
next
  case (Passed t v ok)
  with lone_at [OF lo, of t] have "t = c" by simp
  with Passed inv show ?thesis by (simp add: ended_def inflight_popping)
next
  case (Slept t v ok)
  with lone_at [OF lo, of t] have "t = c" by simp
  with Slept inv show ?thesis by (simp add: ended_def inflight_popping)
next
  case (Woke t v ok w)
  with lone_at [OF lo, of t] have "t = c" by simp
  with Woke inv show ?thesis by (simp add: ended_def inflight_popping)
next
  case (Bumped t v ok)
  with lone_at [OF lo, of t] have "t = c" by simp
  with Bumped inv show ?thesis by (simp add: ended_def inflight_popping)
next
  case (Unlocked t v ok)
  with lone_at [OF lo, of t] have "t = c" by simp
  with Unlocked inv show ?thesis by (simp add: ended_def inflight_popping)
next
  case (Returned t v ok)
  with lone_at [OF lo, of t] have tc: "t = c" by simp
  from Returned flagged_at [OF fl, of t] have ok by (simp add: flag_of_popping)
  with tc Returned inv show ?thesis
    by (auto simp: ended_def inflight_popping pop_ret_PopOk [OF up])
next
  case (Met t u v)
  with lone_at [OF lo, of u] have "u = c" by simp
  with Met inv show ?thesis by (auto simp: ended_def inflight_popping)
qed

lemma run_drained:
  assumes "run s as = Done s'" "drained c s" "list_all (pops_by c) as" "list_all no_Pop as"
  shows "drained c s'"
proof -
  from assms(3,4) have "list_all (\<lambda>a. pops_by c a \<and> no_Pop a) as" by (rule list_all_conj)
  with assms(1,2) show ?thesis
  proof (rule run_invariant_on)
    fix s a s' assume "drained c (s :: 'a sys)" "pops_by c a \<and> no_Pop a" "step s a = Done s'"
    then show "drained c s'"
      unfolding drained_def by (blast intro: step_lone step_unPop step_flagged step_ended)
  qed
qed

lemma boot_drained: "NewCapacity t0 dur c = Done l \<Longrightarrow> drained k (boot l t0')"
  by (simp add: NewCapacity_Done drained_def lone_def unPop_def flagged_def ended_def)

lemma recv_drained:
  assumes "closed (values (lim s))" "buf (values (lim s)) = []" "popping (frames s t) = Some AtRecv"
  shows "step s (Run t) = Done (finish s t (lim s) (pop_ret (frames s t) t nil False (clock s)))"
  using assms by (cases "frames s t") (simp_all add: chanrecv_def Pop_def)

text \<open>
  C4. One goroutine pops with \<^verbatim>\<open>PopOk\<close>, call after call; any number push and close.
  Then the results of \<^verbatim>\<open>PopOk\<close>, in order, are the values pushed, in the order pushed,
  each with \<^verbatim>\<open>true\<close>, followed by \<^verbatim>\<open>(nil, false)\<close> only; \<^verbatim>\<open>(nil, false)\<close> is returned
  only when the Limiter is closed and every value pushed has been returned. In any state
  whatever that is closed and empty, the receive of a \<^verbatim>\<open>Pop\<close> or \<^verbatim>\<open>PopOk\<close> is not
  blocked and the call returns at once, \<^verbatim>\<open>nil\<close> or \<^verbatim>\<open>(nil, false)\<close>, without passing
  the gate. No step of any run panics.
\<close>

theorem close_drains_then_ends:
  assumes "NewCapacity t0 dur c = Done l" and "run (boot l t0) as = Done s"
    and "list_all (pops_by k) as" and "list_all no_Pop as"
  shows "results (hist s) =
      map (\<lambda>v. (v, True)) (take (length (goods (hist s))) (pushed (hist s))) @
      replicate (bads (hist s)) (nil, False) \<and>
    (0 < bads (hist s) \<longrightarrow> closed (values (lim s)) \<and> goods (hist s) = pushed (hist s)) \<and>
    (closed (values (lim z)) \<and> buf (values (lim z)) = [] \<and> popping (frames z t) = Some AtRecv \<longrightarrow>
       step z (Run t) = Done (finish z t (lim z) (pop_ret (frames z t) t nil False (clock z)))) \<and>
    step s a \<noteq> Panics"
proof -
  from assms(1) have "fifo (boot l t0)" "drained k (boot l t0)" "safe (boot l t0)"
    by (rule boot_fifo, rule boot_drained, rule boot_safe)
  with assms(2,3,4) have f: "fifo s" and e: "ended k s" and sf: "safe s"
    by (blast intro: run_fifo, auto dest: run_drained simp: drained_def, blast intro: run_safe)
  from f have p: "pushed (hist s) = taken (hist s) @ buf (values (lim s))" by (simp add: fifo_def)
  from e have t: "taken (hist s) = goods (hist s) @ inflight (frames s k)" by (simp add: ended_def)
  from p t have "take (length (goods (hist s))) (pushed (hist s)) = goods (hist s)"
    by (metis append_assoc append_eq_conv_conj)
  with e have 1: "results (hist s) =
      map (\<lambda>v. (v, True)) (take (length (goods (hist s))) (pushed (hist s))) @
      replicate (bads (hist s)) (nil, False)"
    by (simp add: ended_def)
  from e p t have 2: "0 < bads (hist s) \<longrightarrow> closed (values (lim s)) \<and> goods (hist s) = pushed (hist s)"
    by (auto simp: ended_def)
  from sf have 4: "step s a \<noteq> Panics" by (simp add: safe_def step_no_panic)
  from 1 2 4 recv_drained [of z t] show ?thesis by blast
qed

theorem close_drains_then_ends_witness:
  "NewCapacity 0 10 2 = Done demo \<and>
   list_all (pops_by 1) push_close_drain \<and> list_all no_Pop push_close_drain \<and>
   (\<exists>s. run (boot demo 0) push_close_drain = Done s \<and>
      pushed (hist s) = [Val 1, Val 2] \<and>
      results (hist s) = [(Val 1, True), (Val 2, True), (nil, False), (nil, False)] \<and>
      bads (hist s) = 2 \<and> closed (values (lim s)) \<and> buf (values (lim s)) = [] \<and>
      goods (hist s) = pushed (hist s) \<and>
      popping (frames (s\<lparr>frames := (frames s)(1 := InPop AtRecv)\<rparr>) 1) = Some AtRecv \<and>
      step (s\<lparr>frames := (frames s)(1 := InPop AtRecv)\<rparr>) (Run 1) =
        Done (s\<lparr>hist := hist s @ [PopRet 1 nil 10]\<rparr>) \<and>
      step s (Run 1) \<noteq> Panics)"
proof -
  have q: "list_all (pops_by 1) push_close_drain" "list_all no_Pop push_close_drain"
    by (simp_all add: push_close_drain_def)
  obtain s where r: "run (boot demo 0) push_close_drain = Done s"
    and o: "pushed (hist s) = [Val 1, Val 2]" "bads (hist s) = 2"
      "goods (hist s) = [Val 1, Val 2]" "buf (values (lim s)) = []" "clock s = 10"
      "frames s 1 = Idle"
    by (simp add: demo_def push_close_drain_def Push_def chansend_def chanrecv_def Close_def
        closechan_def)
  let ?z = "s\<lparr>frames := (frames s)(1 := InPop AtRecv)\<rparr>"
  from close_drains_then_ends [OF demo_made r q, of ?z 1 "Run 1"] o
  have "results (hist s) = [(Val 1, True), (Val 2, True), (nil, False), (nil, False)]"
    and c: "closed (values (lim s))"
    and "step ?z (Run 1) = Done (finish ?z 1 (lim ?z) (pop_ret (frames ?z 1) 1 nil False (clock ?z)))"
    and "step s (Run 1) \<noteq> Panics"
    by (simp_all add: numeral_2_eq_2)
  moreover have "finish ?z 1 (lim ?z) (pop_ret (frames ?z 1) 1 nil False (clock ?z))
      = s\<lparr>hist := hist s @ [PopRet 1 nil 10]\<rparr>"
    using o by (simp add: finish_def fun_upd_idem)
  ultimately show ?thesis using r q o demo_made by auto
qed

lemma bare_simps [simp]:
  "bare f = Idle \<longleftrightarrow> f = Idle"
  "bare f = InPush v \<longleftrightarrow> f = InPush v"
  "bare f = InClose \<longleftrightarrow> f = InClose"
  "popping (bare f) = popping f"
  "bare (resume f p) = InPopOk p"
  by (cases f; simp)+

lemma bare_enter [simp]: "bare (enter (case c of CallPop \<Rightarrow> CallPopOk | _ \<Rightarrow> c)) = bare (enter c)"
  by (cases c) simp_all

lemma forget_pop_ret [simp]: "forget (pop_ret f t v ok n) = PopRet t v n"
  by (cases f) simp_all

lemma echo_frames: "echo s1 s2 \<Longrightarrow> bare (frames s1 u) = bare (frames s2 u)"
  by (simp add: echo_def)

lemma echo_popping: "echo s1 s2 \<Longrightarrow> popping (frames s1 u) = popping (frames s2 u)"
  by (metis bare_simps(4) echo_frames)

lemma echo_upd:
  assumes "echo s1 s2" and "lim s1' = lim s2'" and "clock s1' = clock s2'"
    and "frames s1' = (frames s1)(u := f1)" and "frames s2' = (frames s2)(u := f2)"
    and "bare f1 = bare f2" and "map forget (hist s1') = map forget (hist s2')"
  shows "echo s1' s2'"
  using assms by (simp add: echo_def)

lemma run_frame_popping:
  "popping f = Some p \<Longrightarrow>
     run_frame s u f =
       (case PopOk (clock s) p (lim s) of
          Blocks \<Rightarrow> Blocks
        | Panics \<Rightarrow> Panics
        | Done (Goto p', l) \<Rightarrow> Done (advance s u l p')
        | Done (Return (v, ok), l) \<Rightarrow> Done (finish s u l (pop_ret f u v ok (clock s))))"
  by (cases f) (auto simp: Pop_def split: outcome.splits progress.splits prod.splits)

lemma run_frame_echo:
  assumes e: "echo s1 s2"
  shows "both echo (run_frame s1 u (frames s1 u)) (run_frame s2 u (frames s2 u))"
proof -
  from e have l: "lim s1 = lim s2" and c: "clock s1 = clock s2"
    and h: "map forget (hist s1) = map forget (hist s2)"
    by (simp_all add: echo_def)
  note b = echo_frames [OF e, of u]
  show ?thesis
  proof (cases "popping (frames s1 u)")
    case (Some p)
    with echo_popping [OF e, of u] have p2: "popping (frames s2 u) = Some p" by simp
    show ?thesis
    proof (cases "PopOk (clock s2) p (lim s2)")
      case Blocks with Some p2 l c show ?thesis by (simp add: run_frame_popping)
    next
      case Panics with Some p2 l c show ?thesis by (simp add: run_frame_popping)
    next
      case (Done r)
      obtain q l' where r: "r = (q, l')" by (cases r)
      show ?thesis
      proof (cases q)
        case (Goto p')
        have "echo (advance s1 u l' p') (advance s2 u l' p')"
          by (rule echo_upd [OF e, where u = u and ?f1.0 = "resume (frames s1 u) p'"
                and ?f2.0 = "resume (frames s2 u) p'"]) (simp_all add: c h)
        with Done r Goto Some p2 l c show ?thesis by (simp add: run_frame_popping)
      next
        case (Return x)
        obtain v ok where x: "x = (v, ok)" by (cases x)
        have "echo (finish s1 u l' (pop_ret (frames s1 u) u v ok (clock s1)))
            (finish s2 u l' (pop_ret (frames s2 u) u v ok (clock s2)))"
          by (rule echo_upd [OF e, where u = u and ?f1.0 = Idle and ?f2.0 = Idle])
            (simp_all add: c h)
        with Done r Return x Some p2 l c show ?thesis by (simp add: run_frame_popping)
      qed
    qed
  next
    case None
    with echo_popping [OF e, of u] have n2: "popping (frames s2 u) = None" by simp
    show ?thesis
    proof (cases "frames s1 u")
      case Idle
      with b have "frames s2 u = Idle" by (metis bare_simps(1))
      with Idle show ?thesis by simp
    next
      case (InPush v)
      with b have f2: "frames s2 u = InPush v" by (metis bare_simps(2) bare.simps(3))
      have "echo (finish s1 u l' (PushRet u v err)) (finish s2 u l' (PushRet u v err))" for l' err
        by (rule echo_upd [OF e, where u = u and ?f1.0 = Idle and ?f2.0 = Idle])
          (simp_all add: c h)
      with InPush f2 l show ?thesis by (auto split: outcome.splits)
    next
      case InClose
      with b have f2: "frames s2 u = InClose" by (metis bare_simps(3) bare.simps(4))
      have "echo (finish s1 u l' (CloseRet u err)) (finish s2 u l' (CloseRet u err))" for l' err
        by (rule echo_upd [OF e, where u = u and ?f1.0 = Idle and ?f2.0 = Idle])
          (simp_all add: c h)
      with InClose f2 l show ?thesis by (auto split: outcome.splits)
    next
      case (InPopOk p) with None show ?thesis by simp
    next
      case (InPop p) with None show ?thesis by simp
    qed
  qed
qed

lemma step_echo:
  assumes e: "echo s1 s2"
  shows "both echo (step s1 a) (step s2 (as_PopOk a))"
proof (cases a)
  case (Tick n)
  with e show ?thesis by (simp add: echo_def)
next
  case (Run u)
  with run_frame_echo [OF e, of u] show ?thesis by simp
next
  case (Call u c)
  from echo_frames [OF e, of u] have i: "frames s1 u = Idle \<longleftrightarrow> frames s2 u = Idle"
    by (metis bare_simps(1))
  have a': "as_PopOk (Call u c) = Call u (case c of CallPop \<Rightarrow> CallPopOk | _ \<Rightarrow> c)"
    by (cases c) simp_all
  have "echo (s1\<lparr>frames := (frames s1)(u := enter c)\<rparr>)
      (s2\<lparr>frames := (frames s2)(u := enter (case c of CallPop \<Rightarrow> CallPopOk | _ \<Rightarrow> c))\<rparr>)"
    by (rule echo_upd [OF e, where u = u and ?f1.0 = "enter c"
          and ?f2.0 = "enter (case c of CallPop \<Rightarrow> CallPopOk | _ \<Rightarrow> c)"])
      (use e in \<open>simp_all add: echo_def\<close>)
  with Call i a' show ?thesis by simp
next
  case (Sync t u)
  from e have l: "lim s1 = lim s2" and c: "clock s1 = clock s2"
    and h: "map forget (hist s1) = map forget (hist s2)"
    by (simp_all add: echo_def)
  show ?thesis
  proof (cases "\<exists>v. frames s1 t = InPush v")
    case False
    with echo_frames [OF e, of t] have "\<not> (\<exists>v. frames s2 t = InPush v)"
      by (metis bare_simps(2))
    with False Sync show ?thesis
      by (cases "frames s1 t"; cases "frames s2 t") (simp_all add: meet_def)
  next
    case True
    then obtain v where f1: "frames s1 t = InPush v" by blast
    with echo_frames [OF e, of t] have f2: "frames s2 t = InPush v"
      by (metis bare_simps(2) bare.simps(3))
    show ?thesis
    proof (cases "popping (frames s1 u) = Some AtRecv \<and> chansync (values (lim s1))")
      case False
      with f1 f2 l echo_popping [OF e, of u] Sync show ?thesis by (auto simp: meet_def)
    next
      case True
      with f1 have tu: "t \<noteq> u" by auto
      let ?m1 = "finish s1 t (lim s1) (PushRet t v None)"
      let ?m2 = "finish s2 t (lim s2) (PushRet t v None)"
      have m: "echo ?m1 ?m2"
        by (rule echo_upd [OF e, where u = t and ?f1.0 = Idle and ?f2.0 = Idle])
          (simp_all add: l c h)
      have "echo (advance ?m1 u (lim s1) (InGate v True AtLock))
          (advance ?m2 u (lim s2) (InGate v True AtLock))"
        by (rule echo_upd [OF m, where u = u
              and ?f1.0 = "resume (frames ?m1 u) (InGate v True AtLock)"
              and ?f2.0 = "resume (frames ?m2 u) (InGate v True AtLock)"])
          (simp_all add: l c h)
      with True f1 f2 l echo_popping [OF e, of u] Sync show ?thesis by (simp add: meet_def)
    qed
  qed
qed

lemma run_echo: "echo s1 s2 \<Longrightarrow> both echo (run s1 as) (run s2 (map as_PopOk as))"
proof (induction as arbitrary: s1 s2)
  case Nil then show ?case by simp
next
  case (Cons a as)
  from step_echo [OF Cons.prems, of a] show ?case
    by (cases "step s1 a"; cases "step s2 (as_PopOk a)") (simp_all add: Cons.IH)
qed

text \<open>
  C9. \<^verbatim>\<open>Pop\<close> is \<^verbatim>\<open>PopOk\<close> with the flag dropped: replace, in any run from any state,
  every call of \<^verbatim>\<open>Pop\<close> by a call of \<^verbatim>\<open>PopOk\<close>, and the run blocks, panics or ends
  as before, with the same Limiter, the same clock and the same events, but that a return
  of \<^verbatim>\<open>PopOk\<close> with \<open>(v, ok)\<close> stands where \<^verbatim>\<open>Pop\<close> returned \<open>v\<close>. So a \<^verbatim>\<open>Pop\<close> of a
  \<^verbatim>\<open>nil\<close> that was pushed and a \<^verbatim>\<open>Pop\<close> on a closed, empty Limiter return the same,
  where \<^verbatim>\<open>PopOk\<close> returns \<open>(nil, true)\<close> and \<open>(nil, false)\<close>.
\<close>

theorem Pop_drops_the_flag:
  "both echo (run s as) (run s (map as_PopOk as)) \<and>
   seen (\<lambda>s. last (hist s)) (run (boot demo1 0) pop_of_nil) = Some (PopRet 1 nil 0) \<and>
   seen (\<lambda>s. last (hist s)) (run (boot demo1 0) pop_of_closed) = Some (PopRet 1 nil 0) \<and>
   seen (\<lambda>s. last (hist s)) (run (boot demo1 0) (map as_PopOk pop_of_nil))
     = Some (PopOkRet 1 nil True 0) \<and>
   seen (\<lambda>s. last (hist s)) (run (boot demo1 0) (map as_PopOk pop_of_closed))
     = Some (PopOkRet 1 nil False 0)"
proof -
  have "echo s s" by (simp add: echo_def)
  then have "both echo (run s as) (run s (map as_PopOk as))" by (rule run_echo)
  moreover have "seen (\<lambda>s. last (hist s)) (run (boot demo1 0) pop_of_nil) = Some (PopRet 1 nil 0)"
    by (simp add: seen_def demo1_def pop_of_nil_def Push_def chansend_def chanrecv_def Pop_def)
  moreover have "seen (\<lambda>s. last (hist s)) (run (boot demo1 0) pop_of_closed) = Some (PopRet 1 nil 0)"
    by (simp add: seen_def demo1_def pop_of_closed_def Close_def closechan_def chanrecv_def Pop_def)
  moreover have "seen (\<lambda>s. last (hist s)) (run (boot demo1 0) (map as_PopOk pop_of_nil))
     = Some (PopOkRet 1 nil True 0)"
    by (simp add: seen_def demo1_def pop_of_nil_def Push_def chansend_def chanrecv_def)
  moreover have "seen (\<lambda>s. last (hist s)) (run (boot demo1 0) (map as_PopOk pop_of_closed))
     = Some (PopOkRet 1 nil False 0)"
    by (simp add: seen_def demo1_def pop_of_closed_def Close_def closechan_def chanrecv_def)
  ultimately show ?thesis by blast
qed

lemma stage_of_resume [simp]:
  "stage_of (resume f AtRecv) = Outside"
  "stage_of (resume f (InGate v ok AtLock)) = Removed v"
  "stage_of (resume f (InGate v ok AtSleep)) = Admitted v"
  "stage_of (resume f (InGate v ok (Sleeping w))) = Waiting v"
  "stage_of (resume f (InGate v ok AtBump)) = Passed v"
  "stage_of (resume f (InGate v ok AtUnlock)) = Stamped v"
  "stage_of (resume f (AtReturn v ok)) = Released v"
  by (cases f; simp)+

lemma stage_of_enter [simp]: "stage_of (enter c) = Outside"
  by (cases c) simp_all

lemma stage_of_frame [simp]:
  "stage_of Idle = Outside" "stage_of (InPush x) = Outside" "stage_of InClose = Outside"
  by simp_all

lemma stage_of_popping:
  "popping f = Some AtRecv \<Longrightarrow> stage_of f = Outside"
  "popping f = Some (InGate v ok AtLock) \<Longrightarrow> stage_of f = Removed v"
  "popping f = Some (InGate v ok AtSleep) \<Longrightarrow> stage_of f = Admitted v"
  "popping f = Some (InGate v ok (Sleeping w)) \<Longrightarrow> stage_of f = Waiting v"
  "popping f = Some (InGate v ok AtBump) \<Longrightarrow> stage_of f = Passed v"
  "popping f = Some (InGate v ok AtUnlock) \<Longrightarrow> stage_of f = Stamped v"
  "popping f = Some (AtReturn v ok) \<Longrightarrow> stage_of f = Released v"
  by simp_all

declare stage_of.simps [simp del]

lemma gate_run_append:
  "gate_run dur m (h @ h') =
     (case gate_run dur m h of None \<Rightarrow> None | Some m' \<Rightarrow> gate_run dur m' h')"
  by (induction h arbitrary: m) (simp_all split: option.splits)

lemma matches_upd:
  assumes M: "matches dur s m" and fr: "frames s' = (frames s)(t := f')"
    and dd: "d (lim s') = d (lim s)" and mk: "mark m' = nextTime (lim s')"
    and sg: "stage m' = (stage m)(t := stage_of f')"
    and ow: "owner m' = (if in_cs f' then Some t else if in_cs (frames s t) then None else owner m)"
    and free: "in_cs f' \<Longrightarrow> \<not> in_cs (frames s t) \<Longrightarrow> owner m = None"
  shows "matches dur s' m'"
proof -
  from M have O: "\<And>u. (owner m = Some u) = in_cs (frames s u)"
    and S: "stage m = (\<lambda>u. stage_of (frames s u))" and D: "d (lim s) = dur"
    by (simp_all add: matches_def)
  have 1: "stage m' = (\<lambda>u. stage_of (frames s' u))"
    by (rule ext) (simp add: sg fr S)
  have 2: "(owner m' = Some u) = in_cs (frames s' u)" for u
  proof (cases "u = t")
    case True
    with fr ow O [of t] show ?thesis by auto
  next
    case False
    with fr have u: "frames s' u = frames s u" by simp
    show ?thesis
    proof (cases "in_cs f'")
      case True
      show ?thesis
      proof (cases "in_cs (frames s t)")
        case True
        with O [of t] O [of u] False have "\<not> in_cs (frames s u)" by auto
        with \<open>in_cs f'\<close> ow u False show ?thesis by auto
      next
        case False
        with free \<open>in_cs f'\<close> O [of u] have "\<not> in_cs (frames s u)" by auto
        with \<open>in_cs f'\<close> ow u \<open>u \<noteq> t\<close> show ?thesis by auto
      qed
    next
      case nf: False
      show ?thesis
      proof (cases "in_cs (frames s t)")
        case True
        with O [of t] O [of u] False have "\<not> in_cs (frames s u)" by auto
        with nf True ow u show ?thesis by auto
      next
        case False
        with nf ow u O [of u] show ?thesis by auto
      qed
    qed
  qed
  from 1 2 dd D mk show ?thesis by (simp add: matches_def)
qed

lemma matches_quiet:
  assumes "matches dur s m" and "frames s' = (frames s)(t := f')"
    and "d (lim s') = d (lim s)" and "nextTime (lim s') = nextTime (lim s)"
    and "stage_of f' = stage_of (frames s t)" and "in_cs f' = in_cs (frames s t)"
  shows "matches dur s' m"
proof (rule matches_upd [OF assms(1,2,3)])
  from assms(1,4) show "mark m = nextTime (lim s')" by (simp add: matches_def)
  from assms(1,5) show "stage m = (stage m)(t := stage_of f')"
    by (simp add: matches_def fun_upd_idem)
  from assms(1,6) show "owner m = (if in_cs f' then Some t else if in_cs (frames s t) then None else owner m)"
    by (simp add: matches_def)
  show "owner m = None" if "in_cs f'" "\<not> in_cs (frames s t)"
    using that assms(6) by simp
qed

lemma matches_stage: "matches dur s m \<Longrightarrow> stage m t = stage_of (frames s t)"
  by (simp add: matches_def)

lemma matches_mark: "matches dur s m \<Longrightarrow> mark m = nextTime (lim s)"
  by (simp add: matches_def)

lemma matches_owner: "matches dur s m \<Longrightarrow> (owner m = Some t) = in_cs (frames s t)"
  by (simp add: matches_def)

lemma matches_free:
  assumes "matches dur s m" "exclusive s" "\<not> lock (lim s)"
  shows "owner m = None"
proof (cases "owner m")
  case (Some u)
  with matches_owner [OF assms(1), of u] have "in_cs (frames s u)" by simp
  with exclusive_lock [OF assms(2)] assms(3) show ?thesis by blast
qed simp

lemma gated_snoc:
  "gate_run dur g h = Some m \<Longrightarrow> gate_step dur m e = Some m' \<Longrightarrow> gate_run dur g (h @ [e]) = Some m'"
  by (simp add: gate_run_append)

lemma gate_step_drained:
  "stage m t = Outside \<Longrightarrow> gate_step dur m (pop_ret f t nil False n) = Some m"
  by (cases f) simp_all

lemma gate_step_returned:
  "stage m t = Released v \<Longrightarrow> ok \<Longrightarrow>
     gate_step dur m (pop_ret f t v ok n) = Some (m\<lparr>stage := (stage m)(t := Outside)\<rparr>)"
  by (cases f) simp_all

lemma step_gated:
  assumes st: "step s a = Done s'" and ex: "exclusive s" and wa: "waited s" and fl: "flagged s"
    and G: "gate_run dur g (hist s) = Some m" and M: "matches dur s m"
  shows "\<exists>m'. gate_run dur g (hist s') = Some m' \<and> matches dur s' m'"
  using st
proof (cases rule: step_cases)
  case (Tick n)
  with G M show ?thesis by (auto simp: matches_def)
next
  case (Call t c)
  have "matches dur s' m"
    by (rule matches_quiet [OF M, where t = t and f' = "enter c"]) (simp_all add: Call)
  with G Call show ?thesis by auto
next
  case (Refused t v)
  have "matches dur s' m"
    by (rule matches_quiet [OF M, where t = t and f' = Idle]) (simp_all add: Refused)
  moreover from G Refused have "gate_run dur g (hist s') = Some m"
    by (simp add: gated_snoc)
  ultimately show ?thesis by blast
next
  case (Sent t v)
  have "matches dur s' m"
    by (rule matches_quiet [OF M, where t = t and f' = Idle]) (simp_all add: Sent)
  moreover from G Sent have "gate_run dur g (hist s') = Some m"
    by (simp add: gated_snoc)
  ultimately show ?thesis by blast
next
  case (Reclosed t)
  have "matches dur s' m"
    by (rule matches_quiet [OF M, where t = t and f' = Idle]) (simp_all add: Reclosed)
  moreover from G Reclosed have "gate_run dur g (hist s') = Some m"
    by (simp add: gated_snoc)
  ultimately show ?thesis by blast
next
  case (Closed t)
  have "matches dur s' m"
    by (rule matches_quiet [OF M, where t = t and f' = Idle]) (simp_all add: Closed)
  moreover from G Closed have "gate_run dur g (hist s') = Some m"
    by (simp add: gated_snoc)
  ultimately show ?thesis by blast
next
  case (Drained t)
  have "matches dur s' m"
    by (rule matches_quiet [OF M, where t = t and f' = Idle])
      (simp_all add: Drained stage_of_popping)
  moreover from matches_stage [OF M, of t] Drained have "stage m t = Outside"
    by (simp add: stage_of_popping)
  with G Drained have "gate_run dur g (hist s') = Some m"
    by (simp add: gated_snoc gate_step_drained)
  ultimately show ?thesis by blast
next
  case (Took t v vs)
  let ?m = "m\<lparr>stage := (stage m)(t := Removed v)\<rparr>"
  have "matches dur s' ?m"
    by (rule matches_upd [OF M, where t = t and f' = "resume (frames s t) (InGate v True AtLock)"])
      (simp_all add: matches_mark [OF M] Took)
  moreover from matches_stage [OF M, of t] Took have "stage m t = Outside"
    by (simp add: stage_of_popping)
  with G Took have "gate_run dur g (hist s') = Some ?m"
    by (simp add: gated_snoc)
  ultimately show ?thesis by blast
next
  case (Locked t v ok)
  let ?m = "m\<lparr>owner := Some t, stage := (stage m)(t := Admitted v)\<rparr>"
  from Locked have free: "owner m = None" by (intro matches_free [OF M ex]) simp
  have "matches dur s' ?m"
    by (rule matches_upd [OF M, where t = t and f' = "resume (frames s t) (InGate v ok AtSleep)"])
      (simp_all add: matches_mark [OF M] Locked free)
  moreover from matches_stage [OF M, of t] Locked have "stage m t = Removed v"
    by (simp add: stage_of_popping)
  with G Locked free have "gate_run dur g (hist s') = Some ?m"
    by (simp add: gated_snoc)
  ultimately show ?thesis by blast
next
  case (Passed t v ok)
  let ?m = "m\<lparr>stage := (stage m)(t := stage.Passed v)\<rparr>"
  from matches_owner [OF M, of t] Passed have own: "owner m = Some t" by simp
  have "matches dur s' ?m"
    by (rule matches_upd [OF M, where t = t and f' = "resume (frames s t) (InGate v ok AtBump)"])
      (simp_all add: matches_mark [OF M] Passed own)
  moreover from matches_stage [OF M, of t] Passed have "stage m t = Admitted v"
    by (simp add: stage_of_popping)
  moreover from M Passed have "mark m \<le> clock s" by (simp add: matches_def)
  ultimately have "gate_run dur g (hist s') = Some ?m"
    using G Passed own by (simp add: gated_snoc)
  with \<open>matches dur s' ?m\<close> show ?thesis by blast
next
  case (Slept t v ok)
  let ?m = "m\<lparr>stage := (stage m)(t := Waiting v)\<rparr>"
  from matches_owner [OF M, of t] Slept have own: "owner m = Some t" by simp
  have "matches dur s' ?m"
    by (rule matches_upd [OF M, where t = t
          and f' = "resume (frames s t) (InGate v ok (Sleeping (nextTime (lim s))))"])
      (simp_all add: matches_mark [OF M] Slept own)
  moreover from matches_stage [OF M, of t] Slept have "stage m t = Admitted v"
    by (simp add: stage_of_popping)
  moreover from M Slept have "clock s < mark m" "nextTime (lim s) = mark m"
    by (simp_all add: matches_def)
  ultimately have "gate_run dur g (hist s') = Some ?m"
    using G Slept own by (simp add: gated_snoc)
  with \<open>matches dur s' ?m\<close> show ?thesis by blast
next
  case (Woke t v ok w)
  let ?m = "m\<lparr>stage := (stage m)(t := stage.Passed v)\<rparr>"
  from matches_owner [OF M, of t] Woke have own: "owner m = Some t" by simp
  have "matches dur s' ?m"
    by (rule matches_upd [OF M, where t = t and f' = "resume (frames s t) (InGate v ok AtBump)"])
      (simp_all add: matches_mark [OF M] Woke own)
  moreover from matches_stage [OF M, of t] Woke have "stage m t = Waiting v"
    by (simp add: stage_of_popping)
  moreover from M Woke waited_sleeping [OF wa, of t w] have "mark m \<le> clock s"
    by (simp add: matches_def)
  ultimately have "gate_run dur g (hist s') = Some ?m"
    using G Woke own by (simp add: gated_snoc)
  with \<open>matches dur s' ?m\<close> show ?thesis by blast
next
  case (Bumped t v ok)
  let ?m = "m\<lparr>mark := clock s + dur, stage := (stage m)(t := Stamped v)\<rparr>"
  from matches_owner [OF M, of t] Bumped have own: "owner m = Some t" by simp
  from M have D: "d (lim s) = dur" by (simp add: matches_def)
  have "matches dur s' ?m"
    by (rule matches_upd [OF M, where t = t and f' = "resume (frames s t) (InGate v ok AtUnlock)"])
      (simp_all add: matches_mark [OF M] Bumped own D)
  moreover from matches_stage [OF M, of t] Bumped have "stage m t = stage.Passed v"
    by (simp add: stage_of_popping)
  moreover from M Bumped waited_bump [OF wa, of t] have "mark m \<le> clock s"
    by (simp add: matches_def)
  ultimately have "gate_run dur g (hist s') = Some ?m"
    using G Bumped own by (simp add: gated_snoc)
  with \<open>matches dur s' ?m\<close> show ?thesis by blast
next
  case (Unlocked t v ok)
  let ?m = "m\<lparr>owner := None, stage := (stage m)(t := Released v)\<rparr>"
  from matches_owner [OF M, of t] Unlocked have own: "owner m = Some t" by simp
  have "matches dur s' ?m"
    by (rule matches_upd [OF M, where t = t and f' = "resume (frames s t) (AtReturn v ok)"])
      (simp_all add: matches_mark [OF M] Unlocked)
  moreover from matches_stage [OF M, of t] Unlocked have "stage m t = Stamped v"
    by (simp add: stage_of_popping)
  ultimately have "gate_run dur g (hist s') = Some ?m"
    using G Unlocked own by (simp add: gated_snoc)
  with \<open>matches dur s' ?m\<close> show ?thesis by blast
next
  case (Returned t v ok)
  let ?m = "m\<lparr>stage := (stage m)(t := Outside)\<rparr>"
  from Returned flagged_at [OF fl, of t] have ok: ok by (simp add: flag_of_popping)
  have "matches dur s' ?m"
    by (rule matches_upd [OF M, where t = t and f' = Idle]) (simp_all add: matches_mark [OF M] Returned)
  moreover from matches_stage [OF M, of t] Returned have "stage m t = Released v"
    by (simp add: stage_of_popping)
  with G Returned ok have "gate_run dur g (hist s') = Some ?m"
    by (simp add: gated_snoc gate_step_returned)
  ultimately show ?thesis by blast
next
  case (Met t u v)
  let ?m = "m\<lparr>stage := (stage m)(u := Removed v)\<rparr>"
  let ?s1 = "s\<lparr>frames := (frames s)(t := Idle)\<rparr>"
  have "matches dur ?s1 m"
    by (rule matches_quiet [OF M, where t = t and f' = Idle]) (simp_all add: Met)
  then have "matches dur s' ?m"
    by (rule matches_upd [where t = u and f' = "resume (frames s u) (InGate v True AtLock)"])
      (simp_all add: matches_mark [OF M] Met)
  moreover from matches_stage [OF M, of u] Met have "stage m u = Outside"
    by (simp add: stage_of_popping)
  with G Met have "gate_run dur g (hist s') = Some ?m"
    by (simp add: gate_run_append)
  ultimately show ?thesis by blast
qed

lemma step_gated_inv:
  assumes "step s a = Done s'" "safe s \<and> gated t0 dur s"
  shows "safe s' \<and> gated t0 dur s'"
proof -
  from assms(2) obtain m where sf: "safe s"
    and G: "gate_run dur (gate0 t0) (hist s) = Some m" and M: "matches dur s m"
    by (auto simp: gated_def)
  from sf have "exclusive s" "waited s" "flagged s" by (simp_all add: safe_def)
  from step_gated [OF assms(1) this G M] step_safe [OF assms(1) sf]
  show ?thesis by (simp add: gated_def)
qed

lemma boot_gated: "NewCapacity t0 dur c = Done l \<Longrightarrow> gated t0 dur (boot l t0')"
  by (simp add: NewCapacity_Done gated_def matches_def gate0_def stage_of.simps in_cs_def gate_of.simps)

text \<open>
  C3. The events of every run, whatever the goroutines and their interleaving, pass the
  check of the gate: a goroutine that has removed a value from the buffer is admitted
  only when no other goroutine has exclusive access; it waits only if the clock is before
  \<^verbatim>\<open>nextTime\<close>, and then until \<^verbatim>\<open>nextTime\<close>; it goes on only when the clock has reached
  \<^verbatim>\<open>nextTime\<close>; it then sets \<^verbatim>\<open>nextTime\<close> to the clock plus the interval, still holding
  the exclusive access; it releases the access; and only then the value it removed is
  returned.
\<close>

theorem gate_algorithm:
  assumes "NewCapacity t0 dur c = Done l" and "run (boot l t0) as = Done s"
  shows "follows_gate t0 dur (hist s)"
proof -
  from assms(1) have "safe (boot l t0) \<and> gated t0 dur (boot l t0)"
    by (simp add: boot_safe boot_gated)
  with assms(2) have "safe s \<and> gated t0 dur s"
    by (rule run_invariant) (rule step_gated_inv)
  then show ?thesis by (auto simp: gated_def follows_gate_def)
qed

theorem gate_algorithm_witness:
  "NewCapacity 0 10 1 = Done demo1 \<and>
   (\<exists>s. run (boot demo1 0) late_return = Done s \<and> follows_gate 0 10 (hist s) \<and>
      hist s =
        [PushRet 0 (Val 1) None,
         Reached 1 (InGate (Val 1) True AtLock) 0, Reached 1 (InGate (Val 1) True AtSleep) 0,
         Reached 1 (InGate (Val 1) True AtBump) 0, Reached 1 (InGate (Val 1) True AtUnlock) 0,
         Reached 1 (AtReturn (Val 1) True) 0, PopOkRet 1 (Val 1) True 5,
         PushRet 0 (Val 2) None,
         Reached 1 (InGate (Val 2) True AtLock) 5, Reached 1 (InGate (Val 2) True AtSleep) 5,
         Reached 1 (InGate (Val 2) True (Sleeping 10)) 5,
         Reached 1 (InGate (Val 2) True AtBump) 10, Reached 1 (InGate (Val 2) True AtUnlock) 10,
         Reached 1 (AtReturn (Val 2) True) 10, PopOkRet 1 (Val 2) True 10])"
proof -
  have m: "NewCapacity 0 10 1 = Done demo1"
    by (simp add: NewCapacity_Done demo1_def)
  obtain s where r: "run (boot demo1 0) late_return = Done s"
    and h: "hist s =
        [PushRet 0 (Val 1) None,
         Reached 1 (InGate (Val 1) True AtLock) 0, Reached 1 (InGate (Val 1) True AtSleep) 0,
         Reached 1 (InGate (Val 1) True AtBump) 0, Reached 1 (InGate (Val 1) True AtUnlock) 0,
         Reached 1 (AtReturn (Val 1) True) 0, PopOkRet 1 (Val 1) True 5,
         PushRet 0 (Val 2) None,
         Reached 1 (InGate (Val 2) True AtLock) 5, Reached 1 (InGate (Val 2) True AtSleep) 5,
         Reached 1 (InGate (Val 2) True (Sleeping 10)) 5,
         Reached 1 (InGate (Val 2) True AtBump) 10, Reached 1 (InGate (Val 2) True AtUnlock) 10,
         Reached 1 (AtReturn (Val 2) True) 10, PopOkRet 1 (Val 2) True 10]"
    by (simp add: demo1_def late_return_def Push_def chansend_def chanrecv_def)
  from gate_algorithm [OF m r] r h m show ?thesis by blast
qed

end
